theory Spec2Isabelle
  imports Main "HOL-Library.Log_Nat"
begin

section \<open>Data model of the light chain\<close>

text \<open>
  The light chain keeps a store from block hashes to chain data, a head pointer and the
  chain proof it was constructed with. Hashes, targets and interlinks come from the
  block library; the chain only compares and forwards them, so they are numbers and
  lists of numbers here. Difficulty and work are integers, as in the data model of
  the specification; they are JavaScript numbers, added as such (see below).
\<close>

type_synonym hash = nat
type_synonym target = nat
type_synonym interlink = "hash list"

record BlockHeader =
  prevHash :: hash
  interlinkHash :: hash
  height :: int
  target :: target
  nBits :: nat
  difficulty :: int
  nonce :: nat

record Block =
  header :: BlockHeader
  interlink :: interlink

text \<open>A block answers \<open>prevHash\<close>, \<open>height\<close> and \<open>difficulty\<close> from its header.\<close>

definition blockPrevHash :: "Block \<Rightarrow> hash" where
  "blockPrevHash b = prevHash (header b)"

definition blockHeight :: "Block \<Rightarrow> int" where
  "blockHeight b = height (header b)"

definition blockDifficulty :: "Block \<Rightarrow> int" where
  "blockDifficulty b = difficulty (header b)"

record ChainData =
  head :: Block
  totalDifficulty :: int
  totalWork :: int
  onMainChain :: bool

text \<open>
  Modelled from the spec: the constructor of \<open>ChainData\<close> is not part of the source file;
  its fourth argument defaults to \<open>false\<close> (the append path builds the chain data with
  \<open>onMainChain = false\<close>).
\<close>

definition newChainData :: "Block \<Rightarrow> int \<Rightarrow> int \<Rightarrow> ChainData" where
  "newChainData b td tw =
     \<lparr>head = b, totalDifficulty = td, totalWork = tw, onMainChain = False\<rparr>"

record ChainProof =
  prefix :: "Block list"
  suffix :: "BlockHeader list"

text \<open>
  Modelled from the spec: the chain data store (\<open>ChainDataStore\<close>) is not part of the
  source file. It is a map from hashes to chain data: \<open>getChainData\<close> looks a hash up,
  \<open>putChainData\<close> inserts or overwrites an entry and \<open>truncate\<close> removes every entry; a
  read returns the value written last.
\<close>

type_synonym store = "hash \<rightharpoonup> ChainData"

text \<open>
  The state of the engine. \<open>events\<close> lists the payloads of the \<open>head-changed\<close>
  notifications fired so far, oldest first.
\<close>

record LightChain =
  store :: store
  headHash :: hash
  mainChain :: ChainData
  chainProof :: ChainProof
  events :: "Block list"

text \<open>
  The collaborators the source calls but does not define are parameters: hashing, the
  proof-of-work and succession checks of a header, interlink and target arithmetic, the
  lowest common ancestor of two block chains, the proof's own \<open>verify\<close>, the heads of
  a proof and of a block chain, the genesis block and the policy constants.
  \<open>getNextTarget\<close> is a method of the base chain and reads the engine it belongs to.
\<close>

record Ext =
  hashHeader :: "BlockHeader \<Rightarrow> hash"
  verifyProofOfWork :: "BlockHeader \<Rightarrow> bool"
  isImmediateSuccessorOf :: "BlockHeader \<Rightarrow> BlockHeader \<Rightarrow> bool"
  getNextInterlink :: "Block \<Rightarrow> target \<Rightarrow> interlink"
  hashInterlink :: "interlink \<Rightarrow> hash"
  getNextTarget :: "LightChain \<Rightarrow> Block \<Rightarrow> target"
  isValidTarget :: "target \<Rightarrow> bool"
  targetToCompact :: "target \<Rightarrow> nat"
  hashToTarget :: "hash \<Rightarrow> target"
  getTargetDepth :: "target \<Rightarrow> nat"
  realDifficulty :: "hash \<Rightarrow> int"
  lowestCommonAncestor :: "Block list \<Rightarrow> Block list \<Rightarrow> Block"
  proofVerify :: "ChainProof \<Rightarrow> bool"
  proofHead :: "ChainProof \<Rightarrow> BlockHeader"
  chainHead :: "Block list \<Rightarrow> Block"
  suffixTotalDifficulty :: "BlockHeader list \<Rightarrow> int"
  toLight :: "Block \<Rightarrow> Block"
  GENESIS :: Block
  GENESIS_HASH :: hash
  policyK :: int
  policyM :: int

definition hashBlock :: "Ext \<Rightarrow> Block \<Rightarrow> hash" where
  "hashBlock ext b = hashHeader ext (header b)"

section \<open>Result codes\<close>

definition ERR_ORPHAN :: int where "ERR_ORPHAN = -2"
definition ERR_INVALID :: int where "ERR_INVALID = -1"
definition OK_KNOWN :: int where "OK_KNOWN = 0"
definition OK_EXTENDED :: int where "OK_EXTENDED = 1"
definition OK_REBRANCHED :: int where "OK_REBRANCHED = 2"
definition OK_FORKED :: int where "OK_FORKED = 3"

section \<open>Scoring and comparing proofs\<close>

text \<open>
  \<open>counts\<close> is a JavaScript array written by index: writing past the end extends it and
  leaves holes. A hole reads as \<open>undefined\<close>, which the source treats like 0, so a hole
  is the entry 0 here and the length of the list is \<open>counts.length\<close>.
\<close>

definition countUp :: "nat list \<Rightarrow> nat \<Rightarrow> nat list" where
  "countUp counts depth =
     (if depth < length counts
      then counts[depth := (if counts ! depth \<noteq> 0 then counts ! depth + 1 else 1)]
      else counts @ replicate (depth - length counts) 0 @ [1])"

fun tally :: "Ext \<Rightarrow> Block \<Rightarrow> Block list \<Rightarrow> nat list \<Rightarrow> nat list" where
  "tally ext lca [] counts = counts"
| "tally ext lca (block # blocks) counts =
     (if blockHeight block < blockHeight lca then tally ext lca blocks counts
      else
        let target' = hashToTarget ext (hashBlock ext block);
            depth = getTargetDepth ext target'
        in tally ext lca blocks (countUp counts depth))"

text \<open>
  The second loop runs \<open>depth\<close> from \<open>counts.length - 1\<close> down to 0 and leaves it at
  \<open>-1\<close> when it is never broken. The first argument after \<open>m\<close> is \<open>depth + 1\<close>; the
  result is the final \<open>depth\<close> and \<open>sum\<close> (written \<open>sm\<close>).
\<close>

fun scanDepth :: "nat list \<Rightarrow> int \<Rightarrow> nat \<Rightarrow> int \<Rightarrow> int \<times> int" where
  "scanDepth counts m 0 sm = (-1, sm)"
| "scanDepth counts m (Suc depth) sm =
     (let sm' = sm + int (counts ! depth)
      in if sm' \<ge> m then (int depth, sm') else scanDepth counts m depth sm')"

definition getProofScore :: "Ext \<Rightarrow> Block list \<Rightarrow> Block \<Rightarrow> int \<Rightarrow> int" where
  "getProofScore ext chain lca m =
     (let counts = tally ext lca chain [];
          (depth, sm) = scanDepth counts m (length counts) 0
      in 2 ^ nat (max depth 0) * sm)"

definition isBetterProof :: "Ext \<Rightarrow> ChainProof \<Rightarrow> ChainProof \<Rightarrow> int \<Rightarrow> bool" where
  "isBetterProof ext proof1 proof2 m =
     (let lca = lowestCommonAncestor ext (prefix proof1) (prefix proof2);
          score1 = getProofScore ext (prefix proof1) lca m;
          score2 = getProofScore ext (prefix proof2) lca m
      in if score1 = score2
         then suffixTotalDifficulty ext (suffix proof1) \<ge> suffixTotalDifficulty ext (suffix proof2)
         else score1 > score2)"

section \<open>Outcomes of an operation\<close>

text \<open>
  \<open>Assert.that\<close> throws when its condition fails. An operation either returns a value
  or throws, and in both cases leaves an engine state behind; the rebranch walks the
  store along \<open>prevHash\<close> in two \<open>while\<close> statements that need not end, so an
  operation yields an outcome or nothing (\<open>None\<close>: the call never completes). The synchronizer runs one
  operation at a time, so an operation is a function of the state it starts in.
\<close>

datatype error = AssertionFailed

datatype 'a outcome = Returned 'a LightChain | Thrown error LightChain

definition fireHeadChanged :: "LightChain \<Rightarrow> LightChain" where
  "fireHeadChanged s = s\<lparr>events := events s @ [head (mainChain s)]\<rparr>"

section \<open>Rebranching\<close>

text \<open>
  The store is modelled by value: \<open>getChainData\<close> yields what \<open>putChainData\<close> stored
  last. The source keeps \<open>forkChain\<close> and \<open>forkHashes\<close> as two arrays filled together;
  here they are one list of pairs.

  First loop: walk up the fork until a block that is on the main chain.
\<close>

partial_function (option) findCommonAncestor ::
  "store \<Rightarrow> ChainData \<Rightarrow> hash \<Rightarrow> (hash \<times> ChainData) list
     \<Rightarrow> (error + hash \<times> (hash \<times> ChainData) list) option" where
  "findCommonAncestor st curData curHash fork =
     (if onMainChain curData then Some (Inr (curHash, fork))
      else
        let fork' = fork @ [(curHash, curData)];
            curHash' = blockPrevHash (head curData)
        in case st curHash' of
             None \<Rightarrow> Some (Inl AssertionFailed)
           | Some curData' \<Rightarrow> findCommonAncestor st curData' curHash' fork')"

text \<open>
  Second loop: unset the flag on the main chain down to, and excluding, the common
  ancestor. When the assertion fails the store written so far stays.
\<close>

partial_function (option) unsetMainChain ::
  "store \<Rightarrow> hash \<Rightarrow> ChainData \<Rightarrow> hash \<Rightarrow> (error \<times> store + store) option" where
  "unsetMainChain st hHash hData curHash =
     (if hHash = curHash then Some (Inr st)
      else
        let st' = st(hHash \<mapsto> hData\<lparr>onMainChain := False\<rparr>);
            hHash' = blockPrevHash (head hData)
        in case st' hHash' of
             None \<Rightarrow> Some (Inl (AssertionFailed, st'))
           | Some hData' \<Rightarrow> unsetMainChain st' hHash' hData' curHash)"

text \<open>Third loop: set the flag on the fork, from its last entry down to its first.\<close>

definition setMainChain :: "(hash \<times> ChainData) list \<Rightarrow> store \<Rightarrow> store" where
  "setMainChain fork st =
     fold (\<lambda>(forkHash, forkData) st. st(forkHash \<mapsto> forkData\<lparr>onMainChain := True\<rparr>)) (rev fork) st"

text \<open>
  \<open>chainData\<close> is the object the first loop pushes first onto \<open>forkChain\<close> whenever its
  flag is unset, and the third loop sets the flag on that same object; so the chain data
  that becomes \<open>_mainChain\<close> has the flag set in every case. The second loop starts from
  the object \<open>_mainChain\<close> and unsets its flag before it can fail.
\<close>

definition rebranch :: "hash \<Rightarrow> ChainData \<Rightarrow> LightChain \<Rightarrow> unit outcome option" where
  "rebranch blockHash chainData s =
     (case findCommonAncestor (store s) chainData blockHash [] of
        None \<Rightarrow> None
      | Some (Inl e) \<Rightarrow> Some (Thrown e s)
      | Some (Inr (curHash, fork)) \<Rightarrow>
          (case unsetMainChain (store s) (headHash s) (mainChain s) curHash of
             None \<Rightarrow> None
           | Some (Inl (e, st)) \<Rightarrow>
               Some (Thrown e (s\<lparr>store := st, mainChain := (mainChain s)\<lparr>onMainChain := False\<rparr>\<rparr>))
           | Some (Inr st) \<Rightarrow>
               Some (Returned () (s\<lparr>store := setMainChain fork st,
                                    mainChain := chainData\<lparr>onMainChain := True\<rparr>,
                                    headHash := blockHash\<rparr>))))"

section \<open>JavaScript numbers\<close>

text \<open>
  The totals of difficulty and work are JavaScript numbers, that is IEEE 754 doubles, and
  the source adds and compares them as such. A double with an integer value is
  represented by that integer, and the two infinities by \<open>2 ^ 1024\<close> and its negative,
  the first integers beyond the finite doubles, so that the order of \<open>int\<close> is the order
  of the doubles. \<open>roundToDouble\<close> rounds an exact integer result to the nearest double,
  ties to the even significand of 53 bits, and to infinity from \<open>2 ^ 1024 - 2 ^ 970\<close> on.
  \<open>jsAdd\<close> is the addition \<open>+\<close> of the source on these values: an infinite total stays
  infinite when a finite number is added, and a finite sum is the rounded exact sum. Up
  to \<open>2 ^ 53\<close> the sum is exact; \<open>1 + 2 ^ 53\<close> is \<open>2 ^ 53\<close>. The difficulty of a block and
  the real difficulty of a hash are finite, so no sum of two opposite infinities, the only
  sum that is not a number, is ever formed.
\<close>

definition INFINITY :: int where
  "INFINITY = 2 ^ 1024"

definition roundToDouble :: "int \<Rightarrow> int" where
  "roundToDouble z =
     (let a = \<bar>z\<bar>
      in if a < 2 ^ 53 then z
         else
           let e = nat (bitlen a - 53);
               q = a div 2 ^ e;
               r = a mod 2 ^ e;
               q' = (if r > 2 ^ (e - 1) \<or> (r = 2 ^ (e - 1) \<and> odd q) then q + 1 else q)
           in sgn z * min (q' * 2 ^ e) INFINITY)"

definition jsAdd :: "int \<Rightarrow> int \<Rightarrow> int" where
  "jsAdd x y =
     (if \<bar>x\<bar> \<ge> INFINITY then x
      else if \<bar>y\<bar> \<ge> INFINITY then y
      else roundToDouble (x + y))"

section \<open>Appending a block\<close>

definition pushBlockInternal ::
  "Ext \<Rightarrow> Block \<Rightarrow> hash \<Rightarrow> ChainData \<Rightarrow> LightChain \<Rightarrow> int outcome option" where
  "pushBlockInternal ext block blockHash prevData s =
     (let totalDifficulty' = jsAdd (totalDifficulty prevData) (blockDifficulty block);
          totalWork' = jsAdd (totalWork prevData) (realDifficulty ext blockHash);
          chainData = newChainData block totalDifficulty' totalWork'
      in if blockPrevHash block = headHash s then
           let chainData' = chainData\<lparr>onMainChain := True\<rparr>;
               s' = s\<lparr>store := (store s)(blockHash \<mapsto> chainData'),
                      mainChain := chainData', headHash := blockHash\<rparr>
           in Some (Returned OK_EXTENDED (fireHeadChanged s'))
         else if totalDifficulty' > totalDifficulty (mainChain s) then
           (case rebranch blockHash chainData s of
              None \<Rightarrow> None
            | Some (Thrown e s') \<Rightarrow> Some (Thrown e s')
            | Some (Returned u s') \<Rightarrow> Some (Returned OK_REBRANCHED (fireHeadChanged s')))
         else Some (Returned OK_FORKED (s\<lparr>store := (store s)(blockHash \<mapsto> chainData)\<rparr>)))"

text \<open>
  Modelled from the spec: \<open>getBlock(hash)\<close> of the store is the head of the chain data
  stored under the hash, if there is one.
\<close>

definition getBlock :: "store \<Rightarrow> hash \<Rightarrow> Block option" where
  "getBlock st h = map_option head (st h)"

definition pushBlock :: "Ext \<Rightarrow> Block \<Rightarrow> LightChain \<Rightarrow> int outcome option" where
  "pushBlock ext block s =
     (let hash = hashBlock ext block
      in if getBlock (store s) hash \<noteq> None then Some (Returned OK_KNOWN s)
         else case store s (blockPrevHash block) of
                None \<Rightarrow> Some (Returned ERR_ORPHAN s)
              | Some prevData \<Rightarrow>
                  if totalDifficulty prevData \<le> 0 then Some (Returned ERR_ORPHAN s)
                  else pushBlockInternal ext block hash prevData s)"

section \<open>Pushing a header\<close>

definition pushHeader :: "Ext \<Rightarrow> BlockHeader \<Rightarrow> LightChain \<Rightarrow> int outcome option" where
  "pushHeader ext hdr s =
     (let hash = hashHeader ext hdr
      in if getBlock (store s) hash \<noteq> None then Some (Returned OK_KNOWN s)
         else if \<not> verifyProofOfWork ext hdr then Some (Returned ERR_INVALID s)
         else case store s (prevHash hdr) of
                None \<Rightarrow> Some (Returned ERR_ORPHAN s)
              | Some prevData \<Rightarrow>
                  if totalDifficulty prevData \<le> 0 then Some (Returned ERR_ORPHAN s)
                  else
                    let predecessor = head prevData
                    in if \<not> isImmediateSuccessorOf ext hdr (header predecessor)
                       then Some (Returned ERR_INVALID s)
                       else
                         let nextTarget = getNextTarget ext s predecessor
                         in if isValidTarget ext nextTarget
                               \<and> nBits hdr \<noteq> targetToCompact ext nextTarget
                            then Some (Returned ERR_INVALID s)
                            else
                              let interlink' = getNextInterlink ext predecessor (target hdr);
                                  interlinkHash' = hashInterlink ext interlink'
                              in if interlinkHash' \<noteq> interlinkHash hdr
                                 then Some (Returned ERR_INVALID s)
                                 else
                                   pushBlockInternal ext
                                     \<lparr>header = hdr, interlink = interlink'\<rparr> hash prevData s)"

section \<open>Pushing a proof\<close>

text \<open>
  The interlinks of the suffix are recomputed header by header from the head of the
  prefix; \<open>None\<close> is the rejection on a mismatch, otherwise the suffix blocks.
\<close>

fun verifySuffix :: "Ext \<Rightarrow> Block \<Rightarrow> BlockHeader list \<Rightarrow> Block list \<Rightarrow> Block list option" where
  "verifySuffix ext blk [] suffixBlocks = Some suffixBlocks"
| "verifySuffix ext blk (hdr # hdrs) suffixBlocks =
     (let interlink' = getNextInterlink ext blk (target hdr);
          interlinkHash' = hashInterlink ext interlink'
      in if interlinkHash hdr \<noteq> interlinkHash' then None
         else
           let blk' = \<lparr>header = hdr, interlink = interlink'\<rparr>
           in verifySuffix ext blk' hdrs (suffixBlocks @ [blk']))"

definition leafData :: "Block \<Rightarrow> ChainData" where
  "leafData block = \<lparr>head = block, totalDifficulty = -1, totalWork = -1, onMainChain = True\<rparr>"

definition resetStore :: "Ext \<Rightarrow> ChainProof \<Rightarrow> LightChain \<Rightarrow> LightChain" where
  "resetStore ext prf s =
     (let blk = chainHead ext (prefix prf);
          headHash' = hashBlock ext blk;
          chainData = \<lparr>head = blk, totalDifficulty = blockDifficulty blk,
                       totalWork = realDifficulty ext headHash', onMainChain = True\<rparr>;
          st = Map.empty(headHash' \<mapsto> chainData);
          st' = fold (\<lambda>block st. st(hashBlock ext block \<mapsto> leafData block))
                     (take (length (prefix prf) - 1) (prefix prf)) st
      in s\<lparr>store := st', headHash := headHash', mainChain := chainData\<rparr>)"

fun pushSuffix :: "Ext \<Rightarrow> Block list \<Rightarrow> LightChain \<Rightarrow> unit outcome option" where
  "pushSuffix ext [] s = Some (Returned () s)"
| "pushSuffix ext (block # blocks) s =
     (case pushBlock ext block s of
        None \<Rightarrow> None
      | Some (Thrown e s') \<Rightarrow> Some (Thrown e s')
      | Some (Returned result s') \<Rightarrow>
          if result \<ge> 0 then pushSuffix ext blocks s' else Some (Thrown AssertionFailed s'))"

definition acceptProof :: "Ext \<Rightarrow> ChainProof \<Rightarrow> Block list \<Rightarrow> LightChain \<Rightarrow> unit outcome option" where
  "acceptProof ext prf suffixBlocks s =
     (let blk = chainHead ext (prefix prf);
          headHash' = hashBlock ext blk;
          s' = (case store s headHash' of
                  None \<Rightarrow> resetStore ext prf s
                | Some headData \<Rightarrow>
                    if totalDifficulty headData \<le> 0 then resetStore ext prf s else s)
      in pushSuffix ext suffixBlocks s')"

definition pushProof :: "Ext \<Rightarrow> ChainProof \<Rightarrow> LightChain \<Rightarrow> bool outcome option" where
  "pushProof ext prf s =
     (if \<not> proofVerify ext prf then Some (Returned False s)
      else if int (length (suffix prf)) \<noteq> policyK ext
              \<and> int (length (suffix prf)) \<noteq> height (proofHead ext prf) - 1
      then Some (Returned False s)
      else case verifySuffix ext (chainHead ext (prefix prf)) (suffix prf) [] of
             None \<Rightarrow> Some (Returned False s)
           | Some suffixBlocks \<Rightarrow>
               if isBetterProof ext prf (chainProof s) (policyM ext) then
                 (case acceptProof ext prf suffixBlocks s of
                    None \<Rightarrow> None
                  | Some (Thrown e s') \<Rightarrow> Some (Thrown e s')
                  | Some (Returned u s') \<Rightarrow> Some (Returned True s'))
               else Some (Returned True s))"

section \<open>Construction\<close>

definition genesisProof :: "Ext \<Rightarrow> ChainProof" where
  "genesisProof ext = \<lparr>prefix = [toLight ext (GENESIS ext)], suffix = []\<rparr>"

definition newLightChain :: "Ext \<Rightarrow> LightChain" where
  "newLightChain ext =
     (let chainData = \<lparr>head = GENESIS ext, totalDifficulty = blockDifficulty (GENESIS ext),
                        totalWork = realDifficulty ext (GENESIS_HASH ext), onMainChain = True\<rparr>
      in \<lparr>store = Map.empty(GENESIS_HASH ext \<mapsto> chainData),
          headHash = GENESIS_HASH ext,
          mainChain = chainData,
          chainProof = genesisProof ext,
          events = []\<rparr>)"

declare findCommonAncestor.simps [code]
declare unsetMainChain.simps [code]

section \<open>Sequences of calls\<close>

text \<open>
  The engine lives on after a call, whether the call returned or threw; a call that never
  completes leaves no state to continue from.
\<close>

datatype call = PushProof ChainProof | PushHeader BlockHeader

fun stateAfter :: "'a outcome \<Rightarrow> LightChain" where
  "stateAfter (Returned v s) = s"
| "stateAfter (Thrown e s) = s"

definition callOp :: "Ext \<Rightarrow> call \<Rightarrow> LightChain \<Rightarrow> LightChain option" where
  "callOp ext c s =
     (case c of
        PushProof prf \<Rightarrow> map_option stateAfter (pushProof ext prf s)
      | PushHeader hdr \<Rightarrow> map_option stateAfter (pushHeader ext hdr s))"

fun runCalls :: "Ext \<Rightarrow> call list \<Rightarrow> LightChain \<Rightarrow> LightChain option" where
  "runCalls ext [] s = Some s"
| "runCalls ext (c # cs) s =
     (case callOp ext c s of None \<Rightarrow> None | Some s' \<Rightarrow> runCalls ext cs s')"

section \<open>Paths through the store\<close>

text \<open>
  \<open>chainPath st h hs a\<close>: following \<open>prevHash\<close> from the hash \<open>h\<close> through the store
  visits exactly the hashes \<open>hs\<close>, all different from \<open>a\<close>, and then arrives at \<open>a\<close>.
  \<open>flagged st b h\<close>: \<open>h\<close> is stored with \<open>onMainChain = b\<close>. \<open>setFlag b hs st\<close> is
  the store \<open>st\<close> with the flag of the entries \<open>hs\<close> set to \<open>b\<close>.
\<close>

fun chainPath :: "store \<Rightarrow> hash \<Rightarrow> hash list \<Rightarrow> hash \<Rightarrow> bool" where
  "chainPath st h [] a = (h = a)"
| "chainPath st h (x # xs) a =
     (x = h \<and> h \<noteq> a \<and>
      (case st h of None \<Rightarrow> False | Some d \<Rightarrow> chainPath st (blockPrevHash (head d)) xs a))"

definition flagged :: "store \<Rightarrow> bool \<Rightarrow> hash \<Rightarrow> bool" where
  "flagged st b h = (case st h of None \<Rightarrow> False | Some d \<Rightarrow> onMainChain d = b)"

definition setFlag :: "bool \<Rightarrow> hash list \<Rightarrow> store \<Rightarrow> store" where
  "setFlag b hs st =
     (\<lambda>x. if x \<in> set hs then map_option (\<lambda>d. d\<lparr>onMainChain := b\<rparr>) (st x) else st x)"

section \<open>Well-formed stores\<close>

text \<open>
  The shape of the store that the operations keep. A block is extendable when it is stored
  with a positive total difficulty. \<open>liveChain s ms r\<close>: the head hash resolves to the
  main chain data; the main chain runs from the head through \<open>ms\<close> down to its root \<open>r\<close>
  (the genesis block or the head of an adopted prefix), every block of it flagged; an
  extendable flagged block lies on it; and every unflagged block leads, through unflagged
  blocks, to a block of it. A state is well formed when it has such a chain or when no
  block of its store is extendable.

  \<open>rebranchPaths s block a fs ms\<close>: \<open>a\<close> is the common ancestor of the main chain and
  of the fork that \<open>block\<close> extends, \<open>fs\<close> are the blocks of the fork from the
  predecessor of \<open>block\<close> down to \<open>a\<close>, which they exclude, and \<open>ms\<close> are the blocks of
  the main chain from the head down to \<open>a\<close>, which they exclude.
\<close>

definition extendable :: "store \<Rightarrow> hash \<Rightarrow> bool" where
  "extendable st h = (case st h of None \<Rightarrow> False | Some d \<Rightarrow> 0 < totalDifficulty d)"

definition liveChain :: "LightChain \<Rightarrow> hash list \<Rightarrow> hash \<Rightarrow> bool" where
  "liveChain s ms r \<longleftrightarrow>
     store s (headHash s) = Some (mainChain s)
     \<and> chainPath (store s) (headHash s) ms r
     \<and> (\<forall>x \<in> set (ms @ [r]). flagged (store s) True x)
     \<and> (\<forall>h. extendable (store s) h \<and> flagged (store s) True h \<longrightarrow> h \<in> set (ms @ [r]))
     \<and> (\<forall>h. flagged (store s) False h \<longrightarrow>
            (\<exists>fs a. chainPath (store s) h fs a \<and> (\<forall>x \<in> set fs. flagged (store s) False x)
                     \<and> a \<in> set (ms @ [r])))"

definition wellFormed :: "LightChain \<Rightarrow> bool" where
  "wellFormed s \<longleftrightarrow> (\<forall>h. \<not> extendable (store s) h) \<or> (\<exists>ms r. liveChain s ms r)"

definition rebranchPaths :: "LightChain \<Rightarrow> Block \<Rightarrow> hash \<Rightarrow> hash list \<Rightarrow> hash list \<Rightarrow> bool" where
  "rebranchPaths s block a fs ms \<longleftrightarrow>
     chainPath (store s) (blockPrevHash block) fs a
     \<and> (\<forall>x \<in> set fs. flagged (store s) False x)
     \<and> flagged (store s) True a
     \<and> chainPath (store s) (headHash s) ms a
     \<and> (\<forall>x \<in> set ms. flagged (store s) True x)"

section \<open>Valid headers\<close>

text \<open>
  A header is valid in a state when it passes every check of \<open>pushHeader\<close>: it is not
  known, its proof of work holds, its predecessor is stored with a positive total
  difficulty, it is an immediate successor of the predecessor, its compact target is the
  next target when that can be computed, and its interlink hash is the recomputed one.
\<close>

definition validHeader :: "Ext \<Rightarrow> BlockHeader \<Rightarrow> LightChain \<Rightarrow> bool" where
  "validHeader ext hdr s =
     (case store s (prevHash hdr) of
        None \<Rightarrow> False
      | Some prevData \<Rightarrow>
          store s (hashHeader ext hdr) = None
          \<and> verifyProofOfWork ext hdr
          \<and> 0 < totalDifficulty prevData
          \<and> isImmediateSuccessorOf ext hdr (header (head prevData))
          \<and> \<not> (isValidTarget ext (getNextTarget ext s (head prevData))
                \<and> nBits hdr \<noteq> targetToCompact ext (getNextTarget ext s (head prevData)))
          \<and> hashInterlink ext (getNextInterlink ext (head prevData) (target hdr))
              = interlinkHash hdr)"

section \<open>The verification steps of a proof\<close>

text \<open>
  The three steps after which \<open>pushProof\<close> no longer rejects, as the specification lists
  them: the proof's own \<open>verify\<close>, the length of the suffix, and the recomputation of
  the suffix interlinks.
\<close>

definition proofVerified :: "Ext \<Rightarrow> ChainProof \<Rightarrow> bool" where
  "proofVerified ext prf =
     (proofVerify ext prf
      \<and> (int (length (suffix prf)) = policyK ext
           \<or> int (length (suffix prf)) = height (proofHead ext prf) - 1)
      \<and> verifySuffix ext (chainHead ext (prefix prf)) (suffix prf) [] \<noteq> None)"

section \<open>Anchored proofs\<close>

text \<open>
  \<open>adoptionBase\<close> is the state the adoption appends the suffix to: the state itself
  when the head of the prefix is stored with a positive total difficulty, the reset store
  otherwise.

  The source leaves to the proof's own \<open>verify\<close>, which is not part of the source file,
  that the suffix of a verified proof can be appended, and asserts it for every suffix
  block. A proof is anchored in a state when this holds: the head of its prefix is
  extendable in the store the adoption appends to (after a reset this says that the head
  has a positive difficulty and that no other block of the prefix has its hash), the
  headers of the suffix are linked by \<open>prevHash\<close>, the first to the head of the prefix and
  each next one to the one before, no header of the suffix has a negative difficulty, and
  no header of the suffix is stored there as an entry for retrieval only.
\<close>

definition adoptionBase :: "Ext \<Rightarrow> ChainProof \<Rightarrow> LightChain \<Rightarrow> LightChain" where
  "adoptionBase ext prf s =
     (case store s (hashBlock ext (chainHead ext (prefix prf))) of
        None \<Rightarrow> resetStore ext prf s
      | Some headData \<Rightarrow>
          if totalDifficulty headData \<le> 0 then resetStore ext prf s else s)"

fun linkedHeaders :: "Ext \<Rightarrow> hash \<Rightarrow> BlockHeader list \<Rightarrow> bool" where
  "linkedHeaders ext p [] = True"
| "linkedHeaders ext p (hdr # hdrs) =
     (prevHash hdr = p \<and> linkedHeaders ext (hashHeader ext hdr) hdrs)"

definition retrievalOnly :: "store \<Rightarrow> hash \<Rightarrow> bool" where
  "retrievalOnly st h = (case st h of None \<Rightarrow> False | Some d \<Rightarrow> totalDifficulty d \<le> 0)"

definition anchoredProof :: "Ext \<Rightarrow> ChainProof \<Rightarrow> LightChain \<Rightarrow> bool" where
  "anchoredProof ext prf s \<longleftrightarrow>
     extendable (store (adoptionBase ext prf s)) (hashBlock ext (chainHead ext (prefix prf)))
     \<and> linkedHeaders ext (hashBlock ext (chainHead ext (prefix prf))) (suffix prf)
     \<and> (\<forall>hdr \<in> set (suffix prf).
           0 \<le> difficulty hdr
           \<and> \<not> retrievalOnly (store (adoptionBase ext prf s)) (hashHeader ext hdr))"

section \<open>An example chain\<close>

text \<open>
  A small instance of the collaborators, used to run the engine on concrete inputs: the
  hash of a header is its nonce, proof of work holds when the difficulty is positive, the
  interlink of a successor is the hash of its predecessor, the \<open>verify\<close> of a proof
  accepts every proof, and \<open>K = 2\<close>, \<open>M = 1\<close>.
  \<open>demoHeader h p ht d\<close> is the header with hash \<open>h\<close>, predecessor \<open>p\<close>, height \<open>ht\<close>
  and difficulty \<open>d\<close>.
\<close>

definition demoHeader :: "nat \<Rightarrow> nat \<Rightarrow> int \<Rightarrow> int \<Rightarrow> BlockHeader" where
  "demoHeader h p ht d =
     \<lparr>prevHash = p, interlinkHash = p, height = ht, target = 1, nBits = 1,
      difficulty = d, nonce = h\<rparr>"

definition demoBlock :: "nat \<Rightarrow> nat \<Rightarrow> int \<Rightarrow> int \<Rightarrow> Block" where
  "demoBlock h p ht d = \<lparr>header = demoHeader h p ht d, interlink = [p]\<rparr>"

definition demoGenesis :: Block where
  "demoGenesis = \<lparr>header = demoHeader 0 0 1 1, interlink = []\<rparr>"

definition demoExt :: Ext where
  "demoExt =
     \<lparr>hashHeader = nonce,
      verifyProofOfWork = (\<lambda>h. 0 < difficulty h),
      isImmediateSuccessorOf = (\<lambda>h p. height h = height p + 1 \<and> prevHash h = nonce p),
      getNextInterlink = (\<lambda>b t. [nonce (header b)]),
      hashInterlink = sum_list,
      getNextTarget = (\<lambda>s b. target (header b)),
      isValidTarget = (\<lambda>t. 0 < t),
      targetToCompact = (\<lambda>t. t),
      hashToTarget = (\<lambda>h. h),
      getTargetDepth = (\<lambda>t. 0),
      realDifficulty = (\<lambda>h. 1),
      lowestCommonAncestor = (\<lambda>c1 c2. demoGenesis),
      proofVerify = (\<lambda>p. True),
      proofHead = (\<lambda>p. last (header demoGenesis # map header (prefix p) @ suffix p)),
      chainHead = (\<lambda>bs. last (demoGenesis # bs)),
      suffixTotalDifficulty = (\<lambda>hs. sum_list (map difficulty hs)),
      toLight = (\<lambda>b. b),
      GENESIS = demoGenesis,
      GENESIS_HASH = 0,
      policyK = 2,
      policyM = 1\<rparr>"

definition demoData :: "Block \<Rightarrow> int \<Rightarrow> int \<Rightarrow> bool \<Rightarrow> ChainData" where
  "demoData b td tw f = \<lparr>head = b, totalDifficulty = td, totalWork = tw, onMainChain = f\<rparr>"

text \<open>
  The chain \<open>A - B - C\<close> of the fork-then-reorg scenario (\<open>A\<close> is the genesis block, with
  hash 0; \<open>B\<close> and \<open>C\<close> have the hashes 1 and 2), and the same chain with the weaker
  sibling \<open>B'\<close> of \<open>B\<close> (hash 3) stored as a fork.
\<close>

definition demoChain :: LightChain where
  "demoChain =
     \<lparr>store = [0 \<mapsto> demoData demoGenesis 1 1 True,
               1 \<mapsto> demoData (demoBlock 1 0 2 2) 3 2 True,
               2 \<mapsto> demoData (demoBlock 2 1 3 2) 5 3 True],
      headHash = 2,
      mainChain = demoData (demoBlock 2 1 3 2) 5 3 True,
      chainProof = genesisProof demoExt,
      events = [demoBlock 1 0 2 2, demoBlock 2 1 3 2]\<rparr>"

definition demoForked :: LightChain where
  "demoForked =
     demoChain\<lparr>store := (store demoChain)(3 \<mapsto> demoData (demoBlock 3 0 2 1) 2 2 False)\<rparr>"

section \<open>Facts about the addition of JavaScript numbers\<close>

lemma INFINITY_large: "2 ^ 53 < INFINITY"
  by (simp add: INFINITY_def)

lemma jsAdd_exact:
  "\<bar>x\<bar> < 2 ^ 53 \<Longrightarrow> \<bar>y\<bar> < 2 ^ 53 \<Longrightarrow> \<bar>x + y\<bar> < 2 ^ 53 \<Longrightarrow> jsAdd x y = x + y"
  using INFINITY_large by (simp add: jsAdd_def roundToDouble_def)

text \<open>Beyond \<open>2 ^ 53\<close> the sum is rounded, a tie to the even significand.\<close>

lemma jsAdd_rounds:
  "jsAdd 1 (2 ^ 53) = 2 ^ 53"
  "jsAdd 2 (2 ^ 53) = 2 ^ 53 + 2"
  "jsAdd 3 (2 ^ 53) = 2 ^ 53 + 4"
  by code_simp+



section \<open>Properties of the proof score\<close>

lemma tally_all_below:
  "\<forall>b \<in> set chain. blockHeight b < blockHeight lca \<Longrightarrow> tally ext lca chain counts = counts"
  by (induction chain) simp_all

text \<open>
  Claim C9. When no block of the chain has a height at or above the height of \<open>lca\<close>,
  the table of counts stays empty, the scan leaves \<open>depth\<close> at \<open>-1\<close> with \<open>sum = 0\<close>,
  and the score is \<open>2 ^ 0 * 0 = 0\<close>.
\<close>

theorem getProofScore_nothing_above:
  assumes "\<forall>b \<in> set chain. \<not> blockHeight b \<ge> blockHeight lca"
  shows "tally ext lca chain [] = []
    \<and> scanDepth (tally ext lca chain []) m (length (tally ext lca chain [])) 0 = (-1, 0)
    \<and> nat (max (-1::int) 0) = 0
    \<and> getProofScore ext chain lca m = 0"
proof -
  from assms have "\<forall>b \<in> set chain. blockHeight b < blockHeight lca"
    by (simp add: not_le)
  then have t: "tally ext lca chain [] = []"
    by (rule tally_all_below)
  then show ?thesis
    by (simp add: getProofScore_def)
qed

theorem getProofScore_nothing_above_witness:
  "\<not> blockHeight (demoBlock 1 0 2 2) \<ge> blockHeight (demoBlock 5 4 6 1)
   \<and> \<not> blockHeight (demoBlock 2 1 3 2) \<ge> blockHeight (demoBlock 5 4 6 1)
   \<and> getProofScore demoExt [demoBlock 1 0 2 2, demoBlock 2 1 3 2] (demoBlock 5 4 6 1) 1 = 0"
proof -
  have h: "\<forall>b \<in> set [demoBlock 1 0 2 2, demoBlock 2 1 3 2].
       \<not> blockHeight b \<ge> blockHeight (demoBlock 5 4 6 1)"
    by (simp add: demoBlock_def demoHeader_def blockHeight_def)
  show ?thesis
    using h getProofScore_nothing_above [OF h, of demoExt 1] by simp
qed

text \<open>
  Claim C10. A proof is better than itself: both scores are taken against the same
  lowest common ancestor and are equal, and the tie is decided by \<open>\<ge>\<close> on the total
  difficulty of the same suffix.
\<close>

theorem isBetterProof_reflexive: "isBetterProof ext p p m = True"
  by (simp add: isBetterProof_def Let_def)

section \<open>Result codes and small facts\<close>

lemmas demo_defs = demoExt_def demoHeader_def demoBlock_def demoGenesis_def demoData_def
  demoChain_def demoForked_def newLightChain_def genesisProof_def getBlock_def blockPrevHash_def
  blockDifficulty_def blockHeight_def hashBlock_def newChainData_def fireHeadChanged_def Let_def
  jsAdd_exact

lemmas code_defs = ERR_ORPHAN_def ERR_INVALID_def OK_KNOWN_def OK_EXTENDED_def
  OK_REBRANCHED_def OK_FORKED_def

lemma pushBlockInternal_codes:
  "pushBlockInternal ext block blockHash prevData s = Some (Returned c s')
   \<Longrightarrow> c = OK_EXTENDED \<or> c = OK_REBRANCHED \<or> c = OK_FORKED"
  by (auto simp: pushBlockInternal_def Let_def split: if_splits option.splits outcome.splits)

section \<open>Pushing a header: the order of the checks\<close>

text \<open>
  Claim C1, as amended. A header whose predecessor is absent from the store, or stored
  with \<open>totalDifficulty \<le> 0\<close>, is answered with \<open>ERR_ORPHAN\<close> when it is not already
  known and passes the proof-of-work check. The two earlier checks come first: a known
  header is answered with \<open>OK_KNOWN\<close> and an unknown header that fails the proof of work
  with \<open>ERR_INVALID\<close>. The state is unchanged in all three cases.
\<close>

theorem pushHeader_orphan:
  assumes "store s (prevHash hdr) = None
           \<or> (\<exists>prevData. store s (prevHash hdr) = Some prevData \<and> totalDifficulty prevData \<le> 0)"
  shows "pushHeader ext hdr s =
           Some (Returned (if getBlock (store s) (hashHeader ext hdr) \<noteq> None then OK_KNOWN
                           else if \<not> verifyProofOfWork ext hdr then ERR_INVALID
                           else ERR_ORPHAN) s)"
  using assms by (auto simp: pushHeader_def Let_def)

theorem pushHeader_orphan_witness:
  "store (newLightChain demoExt) (prevHash (demoHeader 7 5 2 1)) = None
   \<and> getBlock (store (newLightChain demoExt)) (hashHeader demoExt (demoHeader 7 5 2 1)) = None
   \<and> verifyProofOfWork demoExt (demoHeader 7 5 2 1)
   \<and> pushHeader demoExt (demoHeader 7 5 2 1) (newLightChain demoExt)
       = Some (Returned ERR_ORPHAN (newLightChain demoExt))"
proof -
  have h: "store (newLightChain demoExt) (prevHash (demoHeader 7 5 2 1)) = None"
    by (simp add: demo_defs)
  have k: "getBlock (store (newLightChain demoExt)) (hashHeader demoExt (demoHeader 7 5 2 1)) = None"
    by (simp add: demo_defs)
  have p: "verifyProofOfWork demoExt (demoHeader 7 5 2 1)"
    by (simp add: demo_defs)
  show ?thesis
    using pushHeader_orphan [of "newLightChain demoExt" "demoHeader 7 5 2 1" demoExt] h k p
    by simp
qed

text \<open>
  The header with hash 7 and difficulty 0 fails the proof of work of the example, and its
  predecessor 5 is not in the store of a new engine: the answer is \<open>ERR_INVALID\<close>, not
  \<open>ERR_ORPHAN\<close>.
\<close>

theorem pushHeader_orphan_counterexample:
  "store (newLightChain demoExt) (prevHash (demoHeader 7 5 2 0)) = None
   \<and> pushHeader demoExt (demoHeader 7 5 2 0) (newLightChain demoExt)
       = Some (Returned ERR_INVALID (newLightChain demoExt))
   \<and> pushHeader demoExt (demoHeader 7 5 2 0) (newLightChain demoExt)
       \<noteq> Some (Returned ERR_ORPHAN (newLightChain demoExt))"
  by (simp add: pushHeader_def demo_defs code_defs)

section \<open>Failures leave the state as it was\<close>

text \<open>
  Claim C5. When \<open>pushHeader\<close> returns \<open>ERR_INVALID\<close> or \<open>ERR_ORPHAN\<close>, and when
  \<open>pushProof\<close> returns \<open>false\<close>, the state after the call is the state before it: the
  store, the head hash, the main chain and the list of fired events are unchanged.
\<close>

theorem failure_leaves_state_unchanged:
  "(pushHeader ext hdr s = Some (Returned c s') \<and> (c = ERR_INVALID \<or> c = ERR_ORPHAN)
      \<longrightarrow> s' = s)
   \<and> (pushProof ext prf s = Some (Returned False s'') \<longrightarrow> s'' = s)"
proof (intro conjI impI)
  assume a: "pushHeader ext hdr s = Some (Returned c s') \<and> (c = ERR_INVALID \<or> c = ERR_ORPHAN)"
  then have "\<not> (c = OK_EXTENDED \<or> c = OK_REBRANCHED \<or> c = OK_FORKED)"
    by (auto simp: code_defs)
  then have "pushBlockInternal ext block blockHash prevData s \<noteq> Some (Returned c s')"
    for block blockHash prevData
    using pushBlockInternal_codes by blast
  then show "s' = s"
    using a by (auto simp: pushHeader_def Let_def split: if_splits option.splits)
next
  assume "pushProof ext prf s = Some (Returned False s'')"
  then show "s'' = s"
    by (auto simp: pushProof_def split: if_splits option.splits outcome.splits)
qed

theorem failure_leaves_state_unchanged_witness:
  "pushHeader demoExt (demoHeader 7 5 2 1) demoChain = Some (Returned ERR_ORPHAN demoChain)
   \<and> pushHeader demoExt (demoHeader 7 1 2 0) demoChain = Some (Returned ERR_INVALID demoChain)
   \<and> pushProof demoExt \<lparr>prefix = [demoGenesis], suffix = [demoHeader 1 0 5 2]\<rparr> demoChain
       = Some (Returned False demoChain)
   \<and> headHash demoChain = 2 \<and> events demoChain = [demoBlock 1 0 2 2, demoBlock 2 1 3 2]"
proof -
  have "\<exists>s'. pushHeader demoExt (demoHeader 7 5 2 1) demoChain = Some (Returned ERR_ORPHAN s')"
    by (simp add: pushHeader_def demo_defs)
  then have 1: "pushHeader demoExt (demoHeader 7 5 2 1) demoChain
      = Some (Returned ERR_ORPHAN demoChain)"
    using failure_leaves_state_unchanged [of demoExt "demoHeader 7 5 2 1" demoChain ERR_ORPHAN]
    by auto
  have "\<exists>s'. pushHeader demoExt (demoHeader 7 1 2 0) demoChain = Some (Returned ERR_INVALID s')"
    by (simp add: pushHeader_def demo_defs)
  then have 2: "pushHeader demoExt (demoHeader 7 1 2 0) demoChain
      = Some (Returned ERR_INVALID demoChain)"
    using failure_leaves_state_unchanged [of demoExt "demoHeader 7 1 2 0" demoChain ERR_INVALID]
    by auto
  have "\<exists>s'. pushProof demoExt \<lparr>prefix = [demoGenesis], suffix = [demoHeader 1 0 5 2]\<rparr> demoChain
      = Some (Returned False s')"
    by (simp add: pushProof_def demo_defs)
  then have 3: "pushProof demoExt \<lparr>prefix = [demoGenesis], suffix = [demoHeader 1 0 5 2]\<rparr> demoChain
      = Some (Returned False demoChain)"
    using failure_leaves_state_unchanged [of demoExt _ demoChain _ _
        "\<lparr>prefix = [demoGenesis], suffix = [demoHeader 1 0 5 2]\<rparr>"]
    by auto
  show ?thesis
    using 1 2 3 by (simp add: demoChain_def)
qed

section \<open>The length of the suffix\<close>

text \<open>
  Claim C8. A proof that passes its own \<open>verify\<close> is rejected whenever the length of its
  suffix is neither \<open>K\<close> nor the height of the proof's head minus one. When the length is
  one of the two, the length check does not reject: the proof is then rejected exactly
  when the recomputation of the suffix interlinks fails.
\<close>

theorem pushProof_suffix_length:
  assumes "proofVerify ext prf"
  shows "(int (length (suffix prf)) \<noteq> policyK ext
            \<and> int (length (suffix prf)) \<noteq> height (proofHead ext prf) - 1
          \<longrightarrow> pushProof ext prf s = Some (Returned False s))
       \<and> (int (length (suffix prf)) = policyK ext
            \<or> int (length (suffix prf)) = height (proofHead ext prf) - 1
          \<longrightarrow> ((\<exists>s'. pushProof ext prf s = Some (Returned False s'))
               \<longleftrightarrow> verifySuffix ext (chainHead ext (prefix prf)) (suffix prf) [] = None))"
  using assms by (auto simp: pushProof_def split: option.splits outcome.splits)

theorem pushProof_suffix_length_witness:
  "proofVerify demoExt \<lparr>prefix = [demoGenesis], suffix = [demoHeader 1 0 5 2]\<rparr>
   \<and> pushProof demoExt \<lparr>prefix = [demoGenesis], suffix = [demoHeader 1 0 5 2]\<rparr> demoChain
       = Some (Returned False demoChain)
   \<and> proofVerify demoExt \<lparr>prefix = [demoGenesis], suffix = [demoHeader 1 0 2 2]\<rparr>
   \<and> int (length (suffix \<lparr>prefix = [demoGenesis], suffix = [demoHeader 1 0 2 2]\<rparr>))
       = height (proofHead demoExt \<lparr>prefix = [demoGenesis], suffix = [demoHeader 1 0 2 2]\<rparr>) - 1
   \<and> verifySuffix demoExt (chainHead demoExt [demoGenesis]) [demoHeader 1 0 2 2] [] \<noteq> None
   \<and> pushProof demoExt \<lparr>prefix = [demoGenesis], suffix = [demoHeader 1 0 2 2]\<rparr> demoChain
       \<noteq> Some (Returned False demoChain)"
proof -
  have v: "proofVerify demoExt p" for p
    by (simp add: demoExt_def)
  have vs: "verifySuffix demoExt (chainHead demoExt [demoGenesis]) [demoHeader 1 0 2 2] [] \<noteq> None"
    by (simp add: demo_defs)
  show ?thesis
    using pushProof_suffix_length [OF v, of "\<lparr>prefix = [demoGenesis], suffix = [demoHeader 1 0 5 2]\<rparr>" demoChain]
      pushProof_suffix_length [OF v, of "\<lparr>prefix = [demoGenesis], suffix = [demoHeader 1 0 2 2]\<rparr>" demoChain]
      v vs
    by (simp add: demo_defs)
qed

section \<open>Suffix blocks are appended without header validation\<close>

lemma pushBlockInternal_ext:
  "realDifficulty ext' = realDifficulty ext
   \<Longrightarrow> pushBlockInternal ext' block blockHash prevData s
       = pushBlockInternal ext block blockHash prevData s"
  by (simp add: pushBlockInternal_def)

lemma pushBlock_ext:
  assumes "hashHeader ext' = hashHeader ext" and "realDifficulty ext' = realDifficulty ext"
  shows "pushBlock ext' block s = pushBlock ext block s"
  using pushBlockInternal_ext [OF assms(2)]
  by (simp add: pushBlock_def hashBlock_def assms(1) cong: if_cong option.case_cong)

lemma pushSuffix_ext:
  assumes "hashHeader ext' = hashHeader ext" and "realDifficulty ext' = realDifficulty ext"
  shows "pushSuffix ext' blocks s = pushSuffix ext blocks s"
  by (induction blocks arbitrary: s)
     (simp_all add: pushBlock_ext [OF assms] cong: if_cong option.case_cong outcome.case_cong)

lemma resetStore_ext:
  assumes "hashHeader ext' = hashHeader ext" and "realDifficulty ext' = realDifficulty ext"
      and "chainHead ext' = chainHead ext"
  shows "resetStore ext' prf s = resetStore ext prf s"
  by (simp add: resetStore_def hashBlock_def assms)

lemma acceptProof_ext:
  assumes "hashHeader ext' = hashHeader ext" and "realDifficulty ext' = realDifficulty ext"
      and "chainHead ext' = chainHead ext"
  shows "acceptProof ext' prf blocks s = acceptProof ext prf blocks s"
  by (simp add: acceptProof_def hashBlock_def assms(1,3) pushSuffix_ext [OF assms(1,2)]
        resetStore_ext [OF assms] cong: if_cong option.case_cong)

lemma pushBlock_never_invalid:
  "pushBlock ext block s \<noteq> Some (Returned ERR_INVALID s')"
proof
  assume a: "pushBlock ext block s = Some (Returned ERR_INVALID s')"
  have "pushBlockInternal ext block blockHash prevData s \<noteq> Some (Returned ERR_INVALID s')"
    for blockHash prevData
    using pushBlockInternal_codes [of ext block blockHash prevData s ERR_INVALID s']
    by (auto simp: code_defs)
  with a show False
    by (auto simp: pushBlock_def Let_def code_defs split: if_splits option.splits)
qed

text \<open>
  Claim C6. The blocks that proof adoption pushes are checked only for being unknown and
  for having a predecessor stored with \<open>totalDifficulty > 0\<close>: the outcome of
  \<open>pushBlock\<close>, and of the whole adoption, is the same whatever the proof-of-work check,
  the successor check, the next target and its validity and compact form, and the
  interlink computation and hash are, and \<open>pushBlock\<close> never answers \<open>ERR_INVALID\<close>.
  The header path does check: an unknown header that fails the proof of work is
  answered with \<open>ERR_INVALID\<close> by \<open>pushHeader\<close>.
\<close>

theorem suffix_blocks_not_validated:
  "pushBlock ext block s =
     (if store s (hashBlock ext block) \<noteq> None then Some (Returned OK_KNOWN s)
      else case store s (blockPrevHash block) of
             None \<Rightarrow> Some (Returned ERR_ORPHAN s)
           | Some prevData \<Rightarrow>
               if totalDifficulty prevData \<le> 0 then Some (Returned ERR_ORPHAN s)
               else pushBlockInternal ext block (hashBlock ext block) prevData s)
   \<and> pushBlock (ext\<lparr>verifyProofOfWork := pow, isImmediateSuccessorOf := succ,
                    getNextTarget := nt, isValidTarget := vt, targetToCompact := tc,
                    getNextInterlink := ni, hashInterlink := hi\<rparr>) block s
       = pushBlock ext block s
   \<and> acceptProof (ext\<lparr>verifyProofOfWork := pow, isImmediateSuccessorOf := succ,
                      getNextTarget := nt, isValidTarget := vt, targetToCompact := tc,
                      getNextInterlink := ni, hashInterlink := hi\<rparr>) prf blocks s
       = acceptProof ext prf blocks s
   \<and> pushBlock ext block s \<noteq> Some (Returned ERR_INVALID s')
   \<and> (getBlock (store s) (hashHeader ext hdr) = None \<and> \<not> verifyProofOfWork ext hdr
        \<longrightarrow> pushHeader ext hdr s = Some (Returned ERR_INVALID s))"
proof (intro conjI)
  show "pushBlock ext block s =
     (if store s (hashBlock ext block) \<noteq> None then Some (Returned OK_KNOWN s)
      else case store s (blockPrevHash block) of
             None \<Rightarrow> Some (Returned ERR_ORPHAN s)
           | Some prevData \<Rightarrow>
               if totalDifficulty prevData \<le> 0 then Some (Returned ERR_ORPHAN s)
               else pushBlockInternal ext block (hashBlock ext block) prevData s)"
    by (simp add: pushBlock_def getBlock_def Let_def)
  show "pushBlock (ext\<lparr>verifyProofOfWork := pow, isImmediateSuccessorOf := succ,
                    getNextTarget := nt, isValidTarget := vt, targetToCompact := tc,
                    getNextInterlink := ni, hashInterlink := hi\<rparr>) block s
       = pushBlock ext block s"
    by (rule pushBlock_ext) simp_all
  show "acceptProof (ext\<lparr>verifyProofOfWork := pow, isImmediateSuccessorOf := succ,
                      getNextTarget := nt, isValidTarget := vt, targetToCompact := tc,
                      getNextInterlink := ni, hashInterlink := hi\<rparr>) prf blocks s
       = acceptProof ext prf blocks s"
    by (rule acceptProof_ext) simp_all
  show "pushBlock ext block s \<noteq> Some (Returned ERR_INVALID s')"
    by (rule pushBlock_never_invalid)
  show "getBlock (store s) (hashHeader ext hdr) = None \<and> \<not> verifyProofOfWork ext hdr
        \<longrightarrow> pushHeader ext hdr s = Some (Returned ERR_INVALID s)"
    by (simp add: pushHeader_def)
qed

text \<open>
  On the chain \<open>A - B - C\<close>: the block with hash 7 on top of \<open>C\<close> has difficulty 0, height
  9 and a wrong interlink hash, so it fails the proof of work, the successor check and the
  interlink check of the example. \<open>pushHeader\<close> rejects its header; \<open>pushBlock\<close>
  appends the block.
\<close>

theorem suffix_blocks_not_validated_witness:
  "getBlock (store demoChain) (hashHeader demoExt (demoHeader 7 2 9 0)) = None
   \<and> \<not> verifyProofOfWork demoExt (demoHeader 7 2 9 0)
   \<and> \<not> isImmediateSuccessorOf demoExt (demoHeader 7 2 9 0) (demoHeader 2 1 3 2)
   \<and> pushHeader demoExt (demoHeader 7 2 9 0) demoChain = Some (Returned ERR_INVALID demoChain)
   \<and> (\<exists>s'. pushBlock demoExt \<lparr>header = demoHeader 7 2 9 0, interlink = [5]\<rparr> demoChain
             = Some (Returned OK_EXTENDED s') \<and> headHash s' = 7)"
proof -
  have k: "getBlock (store demoChain) (hashHeader demoExt (demoHeader 7 2 9 0)) = None"
    by (simp add: demo_defs)
  have p: "\<not> verifyProofOfWork demoExt (demoHeader 7 2 9 0)"
    by (simp add: demo_defs)
  have i: "\<not> isImmediateSuccessorOf demoExt (demoHeader 7 2 9 0) (demoHeader 2 1 3 2)"
    by (simp add: demo_defs)
  have d: "store demoChain 2 = Some (demoData (demoBlock 2 1 3 2) 5 3 True)"
    by (simp add: demo_defs)
  have "pushBlock demoExt \<lparr>header = demoHeader 7 2 9 0, interlink = [5]\<rparr> demoChain
      = pushBlockInternal demoExt \<lparr>header = demoHeader 7 2 9 0, interlink = [5]\<rparr> 7
          (demoData (demoBlock 2 1 3 2) 5 3 True) demoChain"
    using suffix_blocks_not_validated
      [of demoExt "\<lparr>header = demoHeader 7 2 9 0, interlink = [5]\<rparr>" demoChain]
    by (simp add: demo_defs)
  then have b: "\<exists>s'. pushBlock demoExt \<lparr>header = demoHeader 7 2 9 0, interlink = [5]\<rparr> demoChain
             = Some (Returned OK_EXTENDED s') \<and> headHash s' = 7"
    by (simp add: pushBlockInternal_def demo_defs)
  show ?thesis
    using suffix_blocks_not_validated [of demoExt _ demoChain _ _ _ _ _ _ _ _ _ _ "demoHeader 7 2 9 0"]
      k p i b
    by simp
qed

section \<open>The proof field\<close>

lemma rebranch_chainProof:
  "rebranch blockHash chainData s = Some out \<Longrightarrow> chainProof (stateAfter out) = chainProof s"
  by (auto simp: rebranch_def split: option.splits sum.splits prod.splits)

lemma pushBlockInternal_chainProof:
  "pushBlockInternal ext block blockHash prevData s = Some out
   \<Longrightarrow> chainProof (stateAfter out) = chainProof s"
  by (auto simp: pushBlockInternal_def Let_def fireHeadChanged_def
      split: if_splits option.splits outcome.splits dest: rebranch_chainProof)

lemma pushBlock_chainProof:
  "pushBlock ext block s = Some out \<Longrightarrow> chainProof (stateAfter out) = chainProof s"
  by (auto simp: pushBlock_def Let_def split: if_splits option.splits
      dest: pushBlockInternal_chainProof)

lemma pushSuffix_chainProof:
  "pushSuffix ext blocks s = Some out \<Longrightarrow> chainProof (stateAfter out) = chainProof s"
proof (induction blocks arbitrary: s)
  case Nil
  then show ?case by auto
next
  case (Cons block blocks)
  show ?case
  proof (cases "pushBlock ext block s")
    case None
    with Cons.prems show ?thesis by simp
  next
    case (Some o1)
    then have 1: "chainProof (stateAfter o1) = chainProof s"
      by (rule pushBlock_chainProof)
    show ?thesis
    proof (cases o1)
      case (Returned result s1)
      with Some Cons.prems 1 Cons.IH [of s1] show ?thesis
        by (auto split: if_splits)
    next
      case (Thrown e s1)
      with Some Cons.prems 1 show ?thesis by auto
    qed
  qed
qed

lemma resetStore_chainProof: "chainProof (resetStore ext prf s) = chainProof s"
  by (simp add: resetStore_def Let_def)

lemma acceptProof_chainProof:
  "acceptProof ext prf blocks s = Some out \<Longrightarrow> chainProof (stateAfter out) = chainProof s"
  by (auto simp: acceptProof_def Let_def resetStore_chainProof
      split: option.splits if_splits dest!: pushSuffix_chainProof)

lemma pushProof_chainProof:
  "pushProof ext prf s = Some out \<Longrightarrow> chainProof (stateAfter out) = chainProof s"
  by (auto simp: pushProof_def split: if_splits option.splits outcome.splits
      dest!: acceptProof_chainProof)

lemma pushHeader_chainProof:
  "pushHeader ext hdr s = Some out \<Longrightarrow> chainProof (stateAfter out) = chainProof s"
  by (auto simp: pushHeader_def Let_def split: if_splits option.splits
      dest: pushBlockInternal_chainProof)

lemma callOp_chainProof: "callOp ext c s = Some s' \<Longrightarrow> chainProof s' = chainProof s"
  by (cases c) (auto simp: callOp_def dest: pushProof_chainProof pushHeader_chainProof)

lemma runCalls_chainProof: "runCalls ext calls s = Some s' \<Longrightarrow> chainProof s' = chainProof s"
proof (induction calls arbitrary: s)
  case Nil
  then show ?case by simp
next
  case (Cons c calls)
  then show ?case
    by (auto split: option.splits dest: callOp_chainProof)
qed

text \<open>
  Claim C3. No operation writes the proof field: whether \<open>pushProof\<close> or \<open>pushHeader\<close>
  returns or throws, the proof of the engine afterwards is the proof before. After any
  sequence of calls on a new engine the proof is still the genesis proof of the
  constructor, and that is the proof every later comparison is made against.
\<close>

theorem proof_field_never_written:
  "(pushProof ext prf s = Some out \<longrightarrow> chainProof (stateAfter out) = chainProof s)
   \<and> (pushHeader ext hdr s = Some out' \<longrightarrow> chainProof (stateAfter out') = chainProof s)
   \<and> (runCalls ext calls (newLightChain ext) = Some s'
        \<longrightarrow> chainProof s' = genesisProof ext
          \<and> isBetterProof ext prf' (chainProof s') (policyM ext)
              = isBetterProof ext prf' (genesisProof ext) (policyM ext))"
proof (intro conjI impI)
  assume "runCalls ext calls (newLightChain ext) = Some s'"
  then have "chainProof s' = chainProof (newLightChain ext)"
    by (rule runCalls_chainProof)
  then show g: "chainProof s' = genesisProof ext"
    by (simp add: newLightChain_def Let_def)
  show "isBetterProof ext prf' (chainProof s') (policyM ext)
      = isBetterProof ext prf' (genesisProof ext) (policyM ext)"
    by (simp add: g)
qed (auto dest: pushProof_chainProof pushHeader_chainProof)

text \<open>
  A new engine adopts the proof with the prefix \<open>A\<close> and the suffix \<open>B, C\<close>: the proof
  is better than the genesis proof, both suffix blocks are appended, the head moves to
  \<open>C\<close>, and the proof field is still the genesis proof.
\<close>

lemma demo_adoption:
  "pushProof demoExt \<lparr>prefix = [demoGenesis], suffix = [demoHeader 1 0 2 2, demoHeader 2 1 3 2]\<rparr>
     (newLightChain demoExt) = Some (Returned True demoChain)"
  by (simp add: pushProof_def isBetterProof_def getProofScore_def countUp_def acceptProof_def
      pushBlock_def pushBlockInternal_def demo_defs code_defs)

theorem proof_field_never_written_witness:
  "runCalls demoExt
     [PushProof \<lparr>prefix = [demoGenesis], suffix = [demoHeader 1 0 2 2, demoHeader 2 1 3 2]\<rparr>]
     (newLightChain demoExt) = Some demoChain
   \<and> headHash demoChain = 2
   \<and> chainProof demoChain = \<lparr>prefix = [toLight demoExt demoGenesis], suffix = []\<rparr>"
proof -
  have r: "runCalls demoExt
     [PushProof \<lparr>prefix = [demoGenesis], suffix = [demoHeader 1 0 2 2, demoHeader 2 1 3 2]\<rparr>]
     (newLightChain demoExt) = Some demoChain"
    using demo_adoption by (simp add: callOp_def)
  have "chainProof demoChain = genesisProof demoExt"
    using proof_field_never_written [of demoExt _ _ _ _ _ _ demoChain] r by blast
  then show ?thesis
    using r by (simp add: demo_defs)
qed

section \<open>Rebranching onto a heavier fork\<close>

lemma chainPath_stored:
  "chainPath st h hs a \<Longrightarrow> st a \<noteq> None \<Longrightarrow> st h \<noteq> None"
  by (cases hs) (auto split: option.splits)

lemma chainPath_target_notin: "chainPath st h hs a \<Longrightarrow> a \<notin> set hs"
  by (induction hs arbitrary: h) (auto split: option.splits)

text \<open>The first loop follows a path of blocks off the main chain and stops at its end.\<close>

lemma findCommonAncestor_path:
  "chainPath st h fs a \<Longrightarrow> \<forall>x \<in> set fs. flagged st False x \<Longrightarrow> flagged st True a
   \<Longrightarrow> st h = Some d
   \<Longrightarrow> findCommonAncestor st d h fork = Some (Inr (a, fork @ map (\<lambda>x. (x, the (st x))) fs))"
proof (induction fs arbitrary: h d fork)
  case Nil
  then show ?case
    by (subst findCommonAncestor.simps) (simp add: flagged_def)
next
  case (Cons x xs)
  from Cons.prems have hx: "x = h" and nf: "\<not> onMainChain d"
    and path: "chainPath st (blockPrevHash (head d)) xs a"
    by (auto simp: flagged_def)
  from Cons.prems(3) have "st a \<noteq> None"
    by (auto simp: flagged_def split: option.splits)
  with path obtain d' where d': "st (blockPrevHash (head d)) = Some d'"
    using chainPath_stored by blast
  have ih: "findCommonAncestor st d' (blockPrevHash (head d)) (fork @ [(h, d)])
      = Some (Inr (a, (fork @ [(h, d)]) @ map (\<lambda>x. (x, the (st x))) xs))"
    using Cons.IH [OF path _ Cons.prems(3) d'] Cons.prems(2) by simp
  show ?case
    by (subst findCommonAncestor.simps) (simp add: nf d' ih hx Cons.prems(4))
qed

text \<open>A path depends on the heads of the stored chain data only, not on their flags.\<close>

lemma chainPath_same_heads:
  "\<forall>x. map_option head (st' x) = map_option head (st x)
   \<Longrightarrow> chainPath st' h hs a = chainPath st h hs a"
proof (induction hs arbitrary: h)
  case Nil
  then show ?case by simp
next
  case (Cons x xs)
  have "map_option head (st' h) = map_option head (st h)"
    using Cons.prems by blast
  then show ?case
    using Cons.IH [OF Cons.prems] by (cases "st h"; cases "st' h") auto
qed

text \<open>The second loop unsets the flag along the path from the head to the ancestor.\<close>

lemma unsetMainChain_path:
  "chainPath st h ms a \<Longrightarrow> st a \<noteq> None \<Longrightarrow> st h = Some d
   \<Longrightarrow> unsetMainChain st h d a = Some (Inr (setFlag False ms st))"
proof (induction ms arbitrary: st h d)
  case Nil
  then show ?case
    by (subst unsetMainChain.simps) (simp add: setFlag_def)
next
  case (Cons x xs)
  let ?st' = "st(h \<mapsto> d\<lparr>onMainChain := False\<rparr>)"
  from Cons.prems have hx: "x = h" and ne: "h \<noteq> a"
    and path: "chainPath st (blockPrevHash (head d)) xs a"
    by auto
  have heads: "\<forall>x. map_option head (?st' x) = map_option head (st x)"
    using Cons.prems(3) by simp
  have path': "chainPath ?st' (blockPrevHash (head d)) xs a"
    using path chainPath_same_heads [OF heads, of "blockPrevHash (head d)" xs a] by blast
  have a': "?st' a \<noteq> None"
    using Cons.prems(2) by simp
  then obtain d' where d': "?st' (blockPrevHash (head d)) = Some d'"
    using chainPath_stored [OF path'] by blast
  have eq: "setFlag False xs ?st' = setFlag False (x # xs) st"
    by (rule ext) (simp add: setFlag_def hx Cons.prems(3))
  have "unsetMainChain ?st' (blockPrevHash (head d)) d' a = Some (Inr (setFlag False xs ?st'))"
    by (rule Cons.IH [OF path' a' d'])
  then have ih: "unsetMainChain ?st' (blockPrevHash (head d)) d' a
      = Some (Inr (setFlag False (x # xs) st))"
    by (simp only: eq)
  show ?case
    by (subst unsetMainChain.simps) (simp add: ne d' ih Let_def del: fun_upd_apply)
qed

text \<open>The third loop: the entry written last is the first of the fork.\<close>

lemma setMainChain_Cons:
  "setMainChain ((h, d) # fork) st = (setMainChain fork st)(h \<mapsto> d\<lparr>onMainChain := True\<rparr>)"
  by (simp add: setMainChain_def)

lemma setMainChain_apply:
  "setMainChain fork st x =
     (case map_of fork x of None \<Rightarrow> st x | Some d \<Rightarrow> Some (d\<lparr>onMainChain := True\<rparr>))"
proof (induction fork)
  case Nil
  then show ?case by (simp add: setMainChain_def)
next
  case (Cons p fork)
  then show ?case by (cases p) (simp add: setMainChain_Cons)
qed

lemma map_of_stored:
  "map_of (map (\<lambda>x. (x, the (st x))) fs) x = (if x \<in> set fs then Some (the (st x)) else None)"
  by (induction fs) auto

lemma rebranch_paths:
  assumes nf: "\<not> onMainChain chainData"
      and hd: "store s (headHash s) = Some (mainChain s)"
      and fork: "chainPath (store s) (blockPrevHash (head chainData)) fs a"
                "\<forall>x \<in> set fs. flagged (store s) False x" "flagged (store s) True a"
      and main: "chainPath (store s) (headHash s) ms a"
  shows "rebranch blockHash chainData s =
           Some (Returned ()
             (s\<lparr>store := setMainChain ((blockHash, chainData) # map (\<lambda>x. (x, the (store s x))) fs)
                            (setFlag False ms (store s)),
                mainChain := chainData\<lparr>onMainChain := True\<rparr>,
                headHash := blockHash\<rparr>))"
proof -
  from fork(3) have a: "store s a \<noteq> None"
    by (auto simp: flagged_def split: option.splits)
  then obtain d where d: "store s (blockPrevHash (head chainData)) = Some d"
    using chainPath_stored [OF fork(1)] by blast
  have "findCommonAncestor (store s) d (blockPrevHash (head chainData)) [(blockHash, chainData)]
      = Some (Inr (a, [(blockHash, chainData)] @ map (\<lambda>x. (x, the (store s x))) fs))"
    by (rule findCommonAncestor_path [OF fork d])
  then have l1: "findCommonAncestor (store s) chainData blockHash []
      = Some (Inr (a, (blockHash, chainData) # map (\<lambda>x. (x, the (store s x))) fs))"
    by (subst findCommonAncestor.simps) (simp add: nf d)
  have l2: "unsetMainChain (store s) (headHash s) (mainChain s) a
      = Some (Inr (setFlag False ms (store s)))"
    by (rule unsetMainChain_path [OF main a hd])
  show ?thesis
    by (simp add: rebranch_def l1 l2)
qed

section \<open>Facts about paths\<close>

lemma chainPath_nodes_stored:
  "chainPath st h hs a \<Longrightarrow> x \<in> set hs \<Longrightarrow> st x \<noteq> None"
  by (induction hs arbitrary: h) (auto split: option.splits)

lemma chainPath_start:
  "chainPath st h hs a \<Longrightarrow> h \<in> set (hs @ [a])"
  by (cases hs) auto

lemma chainPath_cong:
  "\<forall>x \<in> set hs. map_option head (st' x) = map_option head (st x)
   \<Longrightarrow> chainPath st' h hs a = chainPath st h hs a"
proof (induction hs arbitrary: h)
  case Nil
  then show ?case by simp
next
  case (Cons x xs)
  show ?case
  proof (cases "x = h")
    case True
    then have "map_option head (st' h) = map_option head (st h)"
      using Cons.prems by simp
    moreover have "chainPath st' k xs a = chainPath st k xs a" for k
      using Cons.IH Cons.prems by simp
    ultimately show ?thesis
      using True by (cases "st h"; cases "st' h") auto
  next
    case False
    then show ?thesis by simp
  qed
qed

lemma chainPath_fresh:
  assumes "chainPath st h hs a" and "st b = None"
  shows "chainPath (st(b \<mapsto> d)) h hs a"
proof -
  have "\<forall>x \<in> set hs. x \<noteq> b"
    using chainPath_nodes_stored [OF assms(1)] assms(2) by force
  then have "\<forall>x \<in> set hs. map_option head ((st(b \<mapsto> d)) x) = map_option head (st x)"
    by simp
  from chainPath_cong [OF this] assms(1) show ?thesis by blast
qed

lemma chainPath_append:
  "chainPath st h xs a \<Longrightarrow> chainPath st a ys r \<Longrightarrow> \<forall>x \<in> set xs. x \<noteq> r
   \<Longrightarrow> chainPath st h (xs @ ys) r"
  by (induction xs arbitrary: h) (auto split: option.splits)

lemma chainPath_cut:
  "chainPath st h hs r \<Longrightarrow> a \<in> set hs
   \<Longrightarrow> \<exists>hs1 hs2. hs = hs1 @ hs2 \<and> chainPath st h hs1 a \<and> chainPath st a hs2 r \<and> a \<in> set hs2"
proof (induction hs arbitrary: h)
  case Nil
  then show ?case by simp
next
  case (Cons x xs)
  then have xh: "x = h" by simp
  show ?case
  proof (cases "a = h")
    case True
    have "x # xs = [] @ (x # xs) \<and> chainPath st h [] a \<and> chainPath st a (x # xs) r
        \<and> a \<in> set (x # xs)"
      using True Cons.prems xh by simp
    then show ?thesis by blast
  next
    case False
    with Cons.prems xh obtain d where d: "st h = Some d"
      and p: "chainPath st (blockPrevHash (head d)) xs r" and ax: "a \<in> set xs"
      by (auto split: option.splits)
    from Cons.IH [OF p ax] obtain hs1 hs2 where
      "xs = hs1 @ hs2" "chainPath st (blockPrevHash (head d)) hs1 a"
      "chainPath st a hs2 r" "a \<in> set hs2"
      by blast
    then have "x # xs = (x # hs1) @ hs2 \<and> chainPath st h (x # hs1) a \<and> chainPath st a hs2 r
        \<and> a \<in> set hs2"
      using False d xh by simp
    then show ?thesis by blast
  qed
qed

lemma chainPath_cut_end:
  assumes "chainPath st h hs r" and "a \<in> set (hs @ [r])"
  shows "\<exists>hs1 hs2. hs = hs1 @ hs2 \<and> chainPath st h hs1 a \<and> chainPath st a hs2 r"
proof (cases "a \<in> set hs")
  case True
  from chainPath_cut [OF assms(1) this] show ?thesis by blast
next
  case False
  with assms(2) have "a = r" by simp
  then have "hs = hs @ [] \<and> chainPath st h hs a \<and> chainPath st a [] r"
    using assms(1) by simp
  then show ?thesis by blast
qed

lemma chainPath_unique:
  "chainPath st h xs a \<Longrightarrow> chainPath st h ys a \<Longrightarrow> xs = ys"
proof (induction xs arbitrary: h ys)
  case Nil
  then show ?case by (cases ys) auto
next
  case (Cons x xs)
  then show ?case
    by (cases ys) (auto split: option.splits)
qed

lemma chainPath_distinct: "chainPath st h hs a \<Longrightarrow> distinct hs"
proof (induction hs arbitrary: h)
  case Nil
  then show ?case by simp
next
  case (Cons x xs)
  then obtain d where xh: "x = h" and d: "st h = Some d"
    and p: "chainPath st (blockPrevHash (head d)) xs a"
    by (auto split: option.splits)
  have "h \<notin> set xs"
  proof
    assume "h \<in> set xs"
    from chainPath_cut [OF p this] obtain hs1 hs2 where
      xs: "xs = hs1 @ hs2" and q: "chainPath st h hs2 a"
      by blast
    from chainPath_unique [OF Cons.prems q]
    have "length (x # xs) = length hs2" by simp
    with xs show False by simp
  qed
  with Cons.IH [OF p] xh show ?case by simp
qed

lemma chainPath_cut_first:
  "chainPath st h hs r \<Longrightarrow> \<exists>x \<in> set hs. x \<in> S
   \<Longrightarrow> \<exists>hs1 c. chainPath st h hs1 c \<and> c \<in> S \<and> set hs1 \<subseteq> set hs \<and> (\<forall>x \<in> set hs1. x \<notin> S)"
proof (induction hs arbitrary: h)
  case Nil
  then show ?case by simp
next
  case (Cons x xs)
  then have xh: "x = h" by simp
  show ?case
  proof (cases "h \<in> S")
    case True
    then have "chainPath st h [] h \<and> h \<in> S \<and> set [] \<subseteq> set (x # xs) \<and> (\<forall>x \<in> set []. x \<notin> S)"
      by simp
    then show ?thesis by blast
  next
    case False
    with Cons.prems xh obtain d where d: "st h = Some d"
      and p: "chainPath st (blockPrevHash (head d)) xs r" and ex: "\<exists>x \<in> set xs. x \<in> S"
      by (auto split: option.splits)
    from Cons.IH [OF p ex] obtain hs1 c where
      1: "chainPath st (blockPrevHash (head d)) hs1 c" "c \<in> S" "set hs1 \<subseteq> set xs"
         "\<forall>x \<in> set hs1. x \<notin> S"
      by blast
    have "h \<noteq> c" using False 1(2) by auto
    then have "chainPath st h (h # hs1) c \<and> c \<in> S \<and> set (h # hs1) \<subseteq> set (x # xs)
        \<and> (\<forall>x \<in> set (h # hs1). x \<notin> S)"
      using 1 d False xh by auto
    then show ?thesis by blast
  qed
qed

section \<open>The operations keep the store well formed\<close>

lemma flagged_fresh:
  "x \<noteq> b \<Longrightarrow> flagged (st(b \<mapsto> d)) f x = flagged st f x"
  by (simp add: flagged_def)

lemma flagged_stored: "flagged st f x \<Longrightarrow> st x \<noteq> None"
  by (auto simp: flagged_def split: option.splits)

lemma flagged_not_both: "flagged st True x \<Longrightarrow> flagged st False x \<Longrightarrow> False"
  by (auto simp: flagged_def split: option.splits)

lemma extendable_fresh:
  "x \<noteq> b \<Longrightarrow> extendable (st(b \<mapsto> d)) x = extendable st x"
  by (simp add: extendable_def)

lemma wellFormed_new: "wellFormed (newLightChain ext)"
proof -
  have "liveChain (newLightChain ext) [] (GENESIS_HASH ext)"
    by (auto simp: liveChain_def newLightChain_def Let_def flagged_def extendable_def
        split: if_splits option.splits)
  then show ?thesis
    by (auto simp: wellFormed_def)
qed

lemma liveChain_extend:
  assumes live: "liveChain s ms r"
      and new: "store s blockHash = None"
      and prev: "blockPrevHash (head cd) = headHash s"
      and flag: "onMainChain cd"
  shows "liveChain (s\<lparr>store := (store s)(blockHash \<mapsto> cd), mainChain := cd, headHash := blockHash\<rparr>)
           (blockHash # ms) r"
proof -
  let ?st = "store s"
  let ?st' = "(store s)(blockHash \<mapsto> cd)"
  from live have P: "chainPath ?st (headHash s) ms r"
    and F: "\<forall>x \<in> set (ms @ [r]). flagged ?st True x"
    and L3: "\<forall>h. extendable ?st h \<and> flagged ?st True h \<longrightarrow> h \<in> set (ms @ [r])"
    and L4: "\<forall>h. flagged ?st False h \<longrightarrow>
            (\<exists>fs a. chainPath ?st h fs a \<and> (\<forall>x \<in> set fs. flagged ?st False x)
                     \<and> a \<in> set (ms @ [r]))"
    by (auto simp: liveChain_def)
  have ne: "flagged ?st f x \<Longrightarrow> x \<noteq> blockHash" for f x
    using new flagged_stored by force
  have fl: "flagged ?st f x \<Longrightarrow> flagged ?st' f x" for f x
    using ne flagged_fresh by metis
  have fr: "chainPath ?st k ks b \<Longrightarrow> chainPath ?st' k ks b" for k ks b
    using chainPath_fresh new by blast
  have "blockHash \<noteq> r"
    using F ne by auto
  then have 1: "chainPath ?st' blockHash (blockHash # ms) r"
    using chainPath_fresh [OF P new] prev by simp
  have 2: "\<forall>x \<in> set ((blockHash # ms) @ [r]). flagged ?st' True x"
  proof
    fix x assume "x \<in> set ((blockHash # ms) @ [r])"
    then consider "x = blockHash" | "x \<in> set (ms @ [r])" by auto
    then show "flagged ?st' True x"
    proof cases
      case 1
      then show ?thesis using flag by (simp add: flagged_def)
    next
      case 2
      then show ?thesis using F fl by blast
    qed
  qed
  have 3: "\<forall>h. extendable ?st' h \<and> flagged ?st' True h \<longrightarrow> h \<in> set ((blockHash # ms) @ [r])"
  proof (intro allI impI)
    fix h assume a: "extendable ?st' h \<and> flagged ?st' True h"
    show "h \<in> set ((blockHash # ms) @ [r])"
    proof (cases "h = blockHash")
      case True
      then show ?thesis by simp
    next
      case False
      with a have "extendable ?st h \<and> flagged ?st True h"
        by (simp add: extendable_fresh flagged_fresh)
      with L3 show ?thesis by auto
    qed
  qed
  have 4: "\<forall>h. flagged ?st' False h \<longrightarrow>
            (\<exists>fs a. chainPath ?st' h fs a \<and> (\<forall>x \<in> set fs. flagged ?st' False x)
                     \<and> a \<in> set ((blockHash # ms) @ [r]))"
  proof (intro allI impI)
    fix h assume a: "flagged ?st' False h"
    then have "h \<noteq> blockHash"
      using flag by (auto simp: flagged_def)
    with a have "flagged ?st False h"
      by (simp add: flagged_fresh)
    with L4 obtain fs a where
      "chainPath ?st h fs a" "\<forall>x \<in> set fs. flagged ?st False x" "a \<in> set (ms @ [r])"
      by blast
    then have "chainPath ?st' h fs a \<and> (\<forall>x \<in> set fs. flagged ?st' False x)
        \<and> a \<in> set ((blockHash # ms) @ [r])"
      using fr fl by auto
    then show "\<exists>fs a. chainPath ?st' h fs a \<and> (\<forall>x \<in> set fs. flagged ?st' False x)
        \<and> a \<in> set ((blockHash # ms) @ [r])"
      by blast
  qed
  show ?thesis
    unfolding liveChain_def using 1 2 3 4 by simp
qed

lemma liveChain_fork:
  assumes live: "liveChain s ms r"
      and new: "store s blockHash = None"
      and prev: "extendable (store s) (blockPrevHash (head cd))"
      and flag: "\<not> onMainChain cd"
  shows "liveChain (s\<lparr>store := (store s)(blockHash \<mapsto> cd)\<rparr>) ms r"
proof -
  let ?st = "store s"
  let ?st' = "(store s)(blockHash \<mapsto> cd)"
  from live have L1: "?st (headHash s) = Some (mainChain s)"
    and P: "chainPath ?st (headHash s) ms r"
    and F: "\<forall>x \<in> set (ms @ [r]). flagged ?st True x"
    and L3: "\<forall>h. extendable ?st h \<and> flagged ?st True h \<longrightarrow> h \<in> set (ms @ [r])"
    and L4: "\<forall>h. flagged ?st False h \<longrightarrow>
            (\<exists>fs a. chainPath ?st h fs a \<and> (\<forall>x \<in> set fs. flagged ?st False x)
                     \<and> a \<in> set (ms @ [r]))"
    by (auto simp: liveChain_def)
  have ne: "flagged ?st f x \<Longrightarrow> x \<noteq> blockHash" for f x
    using new flagged_stored by force
  have fl: "flagged ?st f x \<Longrightarrow> flagged ?st' f x" for f x
    using ne flagged_fresh by metis
  have fr: "chainPath ?st k ks b \<Longrightarrow> chainPath ?st' k ks b" for k ks b
    using chainPath_fresh new by blast
  have "headHash s \<noteq> blockHash"
    using L1 new by auto
  then have 0: "?st' (headHash s) = Some (mainChain s)"
    using L1 by simp
  have 1: "chainPath ?st' (headHash s) ms r"
    by (rule chainPath_fresh [OF P new])
  have 2: "\<forall>x \<in> set (ms @ [r]). flagged ?st' True x"
    using F fl by blast
  have 3: "\<forall>h. extendable ?st' h \<and> flagged ?st' True h \<longrightarrow> h \<in> set (ms @ [r])"
  proof (intro allI impI)
    fix h assume a: "extendable ?st' h \<and> flagged ?st' True h"
    then have "h \<noteq> blockHash"
      using flag by (auto simp: flagged_def)
    with a have "extendable ?st h \<and> flagged ?st True h"
      by (simp add: extendable_fresh flagged_fresh)
    with L3 show "h \<in> set (ms @ [r])" by blast
  qed
  have old: "\<exists>fs a. chainPath ?st' h fs a \<and> (\<forall>x \<in> set fs. flagged ?st' False x)
        \<and> a \<in> set (ms @ [r])" if "flagged ?st False h" for h
  proof -
    from that L4 obtain fs a where
      "chainPath ?st h fs a" "\<forall>x \<in> set fs. flagged ?st False x" "a \<in> set (ms @ [r])"
      by blast
    then have "chainPath ?st' h fs a \<and> (\<forall>x \<in> set fs. flagged ?st' False x)
        \<and> a \<in> set (ms @ [r])"
      using fr fl by auto
    then show ?thesis by blast
  qed
  have 4: "\<forall>h. flagged ?st' False h \<longrightarrow>
            (\<exists>fs a. chainPath ?st' h fs a \<and> (\<forall>x \<in> set fs. flagged ?st' False x)
                     \<and> a \<in> set (ms @ [r]))"
  proof (intro allI impI)
    fix h assume a: "flagged ?st' False h"
    show "\<exists>fs a. chainPath ?st' h fs a \<and> (\<forall>x \<in> set fs. flagged ?st' False x)
        \<and> a \<in> set (ms @ [r])"
    proof (cases "h = blockHash")
      case False
      with a have "flagged ?st False h"
        by (simp add: flagged_fresh)
      then show ?thesis by (rule old)
    next
      case True
      let ?p = "blockPrevHash (head cd)"
      from prev obtain pd where pd: "?st ?p = Some pd"
        by (auto simp: extendable_def split: option.splits)
      then have pne: "?p \<noteq> blockHash" using new by auto
      have self: "flagged ?st' False blockHash"
        using flag by (simp add: flagged_def)
      show ?thesis
      proof (cases "onMainChain pd")
        case True
        then have "flagged ?st True ?p"
          using pd by (simp add: flagged_def)
        with prev L3 have "?p \<in> set (ms @ [r])" by blast
        moreover have "chainPath ?st' blockHash [blockHash] ?p"
          using pne by simp
        ultimately have "chainPath ?st' blockHash [blockHash] ?p
            \<and> (\<forall>x \<in> set [blockHash]. flagged ?st' False x) \<and> ?p \<in> set (ms @ [r])"
          using self by simp
        then show ?thesis
          using \<open>h = blockHash\<close> by blast
      next
        case False
        then have "flagged ?st False ?p"
          using pd by (simp add: flagged_def)
        from old [OF this] obtain fs a where
          q: "chainPath ?st' ?p fs a" "\<forall>x \<in> set fs. flagged ?st' False x" "a \<in> set (ms @ [r])"
          by blast
        have "blockHash \<noteq> a"
          using q(3) F ne by auto
        then have "chainPath ?st' blockHash (blockHash # fs) a
            \<and> (\<forall>x \<in> set (blockHash # fs). flagged ?st' False x) \<and> a \<in> set (ms @ [r])"
          using q self by simp
        then show ?thesis
          using \<open>h = blockHash\<close> by blast
      qed
    qed
  qed
  show ?thesis
    unfolding liveChain_def using 0 1 2 3 4 by simp
qed

lemma liveChain_paths:
  assumes live: "liveChain s ms r"
      and prev: "extendable (store s) p"
  shows "\<exists>a fs ms1 ms2. ms = ms1 @ ms2
           \<and> chainPath (store s) p fs a
           \<and> (\<forall>x \<in> set fs. flagged (store s) False x)
           \<and> flagged (store s) True a
           \<and> chainPath (store s) (headHash s) ms1 a
           \<and> (\<forall>x \<in> set ms1. flagged (store s) True x)
           \<and> chainPath (store s) a ms2 r"
proof -
  let ?st = "store s"
  from live have P: "chainPath ?st (headHash s) ms r"
    and F: "\<forall>x \<in> set (ms @ [r]). flagged ?st True x"
    and L3: "\<forall>h. extendable ?st h \<and> flagged ?st True h \<longrightarrow> h \<in> set (ms @ [r])"
    and L4: "\<forall>h. flagged ?st False h \<longrightarrow>
            (\<exists>fs a. chainPath ?st h fs a \<and> (\<forall>x \<in> set fs. flagged ?st False x)
                     \<and> a \<in> set (ms @ [r]))"
    by (auto simp: liveChain_def)
  have "\<exists>fs a. chainPath ?st p fs a \<and> (\<forall>x \<in> set fs. flagged ?st False x)
      \<and> a \<in> set (ms @ [r])"
  proof (cases "flagged ?st True p")
    case True
    with prev L3 have "p \<in> set (ms @ [r])" by blast
    then have "chainPath ?st p [] p \<and> (\<forall>x \<in> set []. flagged ?st False x) \<and> p \<in> set (ms @ [r])"
      by simp
    then show ?thesis by blast
  next
    case False
    with prev have "flagged ?st False p"
      by (auto simp: extendable_def flagged_def split: option.splits)
    with L4 show ?thesis by blast
  qed
  then obtain fs a where fa: "chainPath ?st p fs a" "\<forall>x \<in> set fs. flagged ?st False x"
    "a \<in> set (ms @ [r])"
    by blast
  from chainPath_cut_end [OF P fa(3)] obtain ms1 ms2 where
    m: "ms = ms1 @ ms2" "chainPath ?st (headHash s) ms1 a" "chainPath ?st a ms2 r"
    by blast
  have "flagged ?st True a" using F fa(3) by blast
  moreover have "\<forall>x \<in> set ms1. flagged ?st True x" using F m(1) by auto
  ultimately show ?thesis
    using fa(1,2) m by blast
qed

lemma rebranch_store:
  "setMainChain ((blockHash, cd) # map (\<lambda>x. (x, the (st x))) fs) (setFlag False ms1 st) x =
     (if x = blockHash then Some (cd\<lparr>onMainChain := True\<rparr>)
      else if x \<in> set fs then Some ((the (st x))\<lparr>onMainChain := True\<rparr>)
      else if x \<in> set ms1 then map_option (\<lambda>d. d\<lparr>onMainChain := False\<rparr>) (st x)
      else st x)"
  by (simp add: setMainChain_apply map_of_stored setFlag_def)

lemma liveChain_rebranch:
  assumes live: "liveChain s (ms1 @ ms2) r"
      and new: "store s blockHash = None"
      and flag: "\<not> onMainChain cd"
      and fork: "chainPath (store s) (blockPrevHash (head cd)) fs a"
      and forkF: "\<forall>x \<in> set fs. flagged (store s) False x"
      and main1: "chainPath (store s) (headHash s) ms1 a"
      and main2: "chainPath (store s) a ms2 r"
  shows "liveChain
           (s\<lparr>store := setMainChain ((blockHash, cd) # map (\<lambda>x. (x, the (store s x))) fs)
                          (setFlag False ms1 (store s)),
              mainChain := cd\<lparr>onMainChain := True\<rparr>,
              headHash := blockHash\<rparr>)
           (blockHash # fs @ ms2) r"
proof -
  let ?st = "store s"
  let ?st' = "setMainChain ((blockHash, cd) # map (\<lambda>x. (x, the (?st x))) fs)
      (setFlag False ms1 ?st)"
  let ?ms' = "blockHash # fs @ ms2"
  from live have P: "chainPath ?st (headHash s) (ms1 @ ms2) r"
    and F: "\<forall>x \<in> set ((ms1 @ ms2) @ [r]). flagged ?st True x"
    and L3: "\<forall>h. extendable ?st h \<and> flagged ?st True h \<longrightarrow> h \<in> set ((ms1 @ ms2) @ [r])"
    and L4: "\<forall>h. flagged ?st False h \<longrightarrow>
            (\<exists>fs a. chainPath ?st h fs a \<and> (\<forall>x \<in> set fs. flagged ?st False x)
                     \<and> a \<in> set ((ms1 @ ms2) @ [r]))"
    by (auto simp: liveChain_def)
  have st': "?st' x =
     (if x = blockHash then Some (cd\<lparr>onMainChain := True\<rparr>)
      else if x \<in> set fs then Some ((the (?st x))\<lparr>onMainChain := True\<rparr>)
      else if x \<in> set ms1 then map_option (\<lambda>d. d\<lparr>onMainChain := False\<rparr>) (?st x)
      else ?st x)" for x
    by (rule rebranch_store)
  have nb: "flagged ?st f x \<Longrightarrow> x \<noteq> blockHash" for f x
    using new flagged_stored by force
  have F1: "x \<in> set ms1 \<Longrightarrow> flagged ?st True x" for x using F by auto
  have F2: "x \<in> set (ms2 @ [r]) \<Longrightarrow> flagged ?st True x" for x using F by auto
  have fs_ms1: "x \<in> set fs \<Longrightarrow> x \<notin> set ms1" for x
    using forkF F1 flagged_not_both by blast
  have fs_ms2: "x \<in> set fs \<Longrightarrow> x \<notin> set (ms2 @ [r])" for x
    using forkF F2 flagged_not_both by blast
  have "distinct (ms1 @ ms2)" by (rule chainPath_distinct [OF P])
  moreover have "r \<notin> set (ms1 @ ms2)" by (rule chainPath_target_notin [OF P])
  ultimately have ms12: "x \<in> set (ms2 @ [r]) \<Longrightarrow> x \<notin> set ms1" for x
    by auto
  have f_new: "flagged ?st' True blockHash"
    by (simp add: flagged_def st')
  have f_fs: "x \<in> set fs \<Longrightarrow> flagged ?st' True x" for x
    by (simp add: flagged_def st')
  have f_ms1: "x \<in> set ms1 \<Longrightarrow> flagged ?st' False x" for x
    using F1 [of x] nb [of True x] fs_ms1 [of x]
    by (auto simp: flagged_def st' split: option.splits)
  have same: "x \<notin> set fs \<Longrightarrow> x \<notin> set ms1 \<Longrightarrow> x \<noteq> blockHash \<Longrightarrow> ?st' x = ?st x" for x
    by (simp add: st')
  have f_same: "x \<notin> set fs \<Longrightarrow> x \<notin> set ms1 \<Longrightarrow> x \<noteq> blockHash
      \<Longrightarrow> flagged ?st' f x = flagged ?st f x" for x f
    using same [of x] by (simp add: flagged_def)
  have heads: "x \<noteq> blockHash \<Longrightarrow> map_option head (?st' x) = map_option head (?st x)" for x
    using forkF flagged_stored [of ?st False x]
    by (cases "?st x") (auto simp: st')
  have tds: "x \<noteq> blockHash
      \<Longrightarrow> map_option totalDifficulty (?st' x) = map_option totalDifficulty (?st x)" for x
    using forkF flagged_stored [of ?st False x]
    by (cases "?st x") (auto simp: st')
  have ext: "x \<noteq> blockHash \<Longrightarrow> extendable ?st' x = extendable ?st x" for x
    using tds [of x] by (cases "?st x"; cases "?st' x") (auto simp: extendable_def)
  have tr: "chainPath ?st' k ks b" if "chainPath ?st k ks b" for k ks b
  proof -
    have "\<forall>x \<in> set ks. x \<noteq> blockHash"
      using chainPath_nodes_stored [OF that] new by force
    then have "\<forall>x \<in> set ks. map_option head (?st' x) = map_option head (?st x)"
      using heads by blast
    from chainPath_cong [OF this] that show ?thesis by blast
  qed
  have a_in: "a \<in> set (ms2 @ [r])"
    by (rule chainPath_start [OF main2])
  then have a_in': "a \<in> set (?ms' @ [r])"
    by auto
  have g0: "?st' blockHash = Some (cd\<lparr>onMainChain := True\<rparr>)"
    by (simp add: st')
  have g1: "chainPath ?st' blockHash ?ms' r"
  proof -
    have "\<forall>x \<in> set fs. x \<noteq> r" using fs_ms2 by auto
    from chainPath_append [OF fork main2 this]
    have "chainPath ?st' (blockPrevHash (head cd)) (fs @ ms2) r" by (rule tr)
    moreover have "blockHash \<noteq> r" using F2 [of r] nb by auto
    ultimately show ?thesis
      by (simp add: g0)
  qed
  have g2: "\<forall>x \<in> set (?ms' @ [r]). flagged ?st' True x"
  proof
    fix x assume "x \<in> set (?ms' @ [r])"
    then consider "x = blockHash" | "x \<in> set fs" | "x \<in> set (ms2 @ [r])" by auto
    then show "flagged ?st' True x"
    proof cases
      case 1 then show ?thesis using f_new by simp
    next
      case 2 then show ?thesis by (rule f_fs)
    next
      case 3
      then have "x \<notin> set fs" "x \<notin> set ms1" "x \<noteq> blockHash"
        using fs_ms2 ms12 F2 nb by blast+
      then show ?thesis using f_same F2 [OF 3] by simp
    qed
  qed
  have g3: "\<forall>h. extendable ?st' h \<and> flagged ?st' True h \<longrightarrow> h \<in> set (?ms' @ [r])"
  proof (intro allI impI)
    fix h assume h: "extendable ?st' h \<and> flagged ?st' True h"
    show "h \<in> set (?ms' @ [r])"
    proof (cases "h = blockHash \<or> h \<in> set fs")
      case True
      then show ?thesis by auto
    next
      case False
      then have 1: "h \<noteq> blockHash" "h \<notin> set fs" by auto
      have 2: "h \<notin> set ms1"
        using h f_ms1 flagged_not_both by blast
      from h have "extendable ?st h \<and> flagged ?st True h"
        using ext [OF 1(1)] f_same [OF 1(2) 2 1(1)] by simp
      with L3 have "h \<in> set ((ms1 @ ms2) @ [r])" by blast
      with 2 show ?thesis by auto
    qed
  qed
  have down: "\<exists>m2. chainPath ?st b m2 a \<and> set m2 \<subseteq> set ms1" if "b \<in> set ms1" for b
  proof -
    from chainPath_cut [OF main1 that] obtain hs1 hs2 where
      "ms1 = hs1 @ hs2" "chainPath ?st b hs2 a"
      by blast
    then have "chainPath ?st b hs2 a \<and> set hs2 \<subseteq> set ms1" by auto
    then show ?thesis by blast
  qed
  have fa: "flagged ?st True a" using F2 a_in by blast
  have g4: "\<forall>h. flagged ?st' False h \<longrightarrow>
            (\<exists>gs b. chainPath ?st' h gs b \<and> (\<forall>x \<in> set gs. flagged ?st' False x)
                     \<and> b \<in> set (?ms' @ [r]))"
  proof (intro allI impI)
    fix h assume h: "flagged ?st' False h"
    then have hn: "h \<noteq> blockHash" "h \<notin> set fs"
      using f_new f_fs flagged_not_both by blast+
    show "\<exists>gs b. chainPath ?st' h gs b \<and> (\<forall>x \<in> set gs. flagged ?st' False x)
        \<and> b \<in> set (?ms' @ [r])"
    proof (cases "h \<in> set ms1")
      case True
      from down [OF True] obtain m2 where m2: "chainPath ?st h m2 a" "set m2 \<subseteq> set ms1"
        by blast
      have "chainPath ?st' h m2 a \<and> (\<forall>x \<in> set m2. flagged ?st' False x)
          \<and> a \<in> set (?ms' @ [r])"
        using tr [OF m2(1)] m2(2) f_ms1 a_in' by blast
      then show ?thesis by blast
    next
      case False
      with h hn have "flagged ?st False h"
        using f_same by simp
      with L4 obtain gs b where gs: "chainPath ?st h gs b"
        "\<forall>x \<in> set gs. flagged ?st False x" "b \<in> set ((ms1 @ ms2) @ [r])"
        by blast
      have gs_ms1: "x \<in> set gs \<Longrightarrow> x \<notin> set ms1" for x
        using gs(2) F1 flagged_not_both by blast
      have gs_nb: "x \<in> set gs \<Longrightarrow> x \<noteq> blockHash" for x
        using gs(2) nb by blast
      show ?thesis
      proof (cases "\<exists>x \<in> set gs. x \<in> set fs")
        case True
        from chainPath_cut_first [OF gs(1) True] obtain gs1 c where
          c: "chainPath ?st h gs1 c" "c \<in> set fs" "set gs1 \<subseteq> set gs"
             "\<forall>x \<in> set gs1. x \<notin> set fs"
          by blast
        have "\<forall>x \<in> set gs1. flagged ?st' False x"
        proof
          fix x assume x: "x \<in> set gs1"
          then have "x \<notin> set fs" "x \<notin> set ms1" "x \<noteq> blockHash" "flagged ?st False x"
            using c(3,4) gs_ms1 gs_nb gs(2) by auto
          then show "flagged ?st' False x" using f_same by simp
        qed
        then have "chainPath ?st' h gs1 c \<and> (\<forall>x \<in> set gs1. flagged ?st' False x)
            \<and> c \<in> set (?ms' @ [r])"
          using tr [OF c(1)] c(2) by simp
        then show ?thesis by blast
      next
        case False
        have gsF: "\<forall>x \<in> set gs. flagged ?st' False x"
        proof
          fix x assume x: "x \<in> set gs"
          then have "x \<notin> set fs" "x \<notin> set ms1" "x \<noteq> blockHash" "flagged ?st False x"
            using False gs_ms1 gs_nb gs(2) by auto
          then show "flagged ?st' False x" using f_same by simp
        qed
        show ?thesis
        proof (cases "b \<in> set ms1")
          case True
          from down [OF True] obtain m2 where m2: "chainPath ?st b m2 a" "set m2 \<subseteq> set ms1"
            by blast
          have "\<forall>x \<in> set gs. x \<noteq> a"
            using gs(2) fa flagged_not_both by blast
          from chainPath_append [OF gs(1) m2(1) this]
          have "chainPath ?st' h (gs @ m2) a" by (rule tr)
          moreover have "\<forall>x \<in> set (gs @ m2). flagged ?st' False x"
            using gsF m2(2) f_ms1 by auto
          ultimately have "chainPath ?st' h (gs @ m2) a
              \<and> (\<forall>x \<in> set (gs @ m2). flagged ?st' False x) \<and> a \<in> set (?ms' @ [r])"
            using a_in' by blast
          then show ?thesis by blast
        next
          case False
          with gs(3) have "b \<in> set (?ms' @ [r])" by auto
          with tr [OF gs(1)] gsF show ?thesis by blast
        qed
      qed
    qed
  qed
  show ?thesis
    unfolding liveChain_def using g0 g1 g2 g3 g4 by simp
qed

lemma liveChain_events: "liveChain (s\<lparr>events := e\<rparr>) ms r = liveChain s ms r"
  by (simp add: liveChain_def)

lemma wellFormed_events: "wellFormed (fireHeadChanged s) = wellFormed s"
  by (simp add: wellFormed_def fireHeadChanged_def liveChain_events)

text \<open>
  In a well-formed state the append of a new block onto an extendable predecessor always
  returns: the rebranch finds its common ancestor and fails neither of its assertions.
\<close>

lemma wellFormed_pushBlockInternal:
  assumes wf: "wellFormed s"
      and new: "store s blockHash = None"
      and prev: "store s (blockPrevHash block) = Some prevData" "0 < totalDifficulty prevData"
  shows "\<exists>c s'. pushBlockInternal ext block blockHash prevData s = Some (Returned c s')
           \<and> wellFormed s'"
proof -
  define cd where "cd = newChainData block
      (jsAdd (totalDifficulty prevData) (blockDifficulty block))
      (jsAdd (totalWork prevData) (realDifficulty ext blockHash))"
  have cd: "\<not> onMainChain cd" "head cd = block"
    by (simp_all add: cd_def newChainData_def)
  have e: "extendable (store s) (blockPrevHash (head cd))"
    using prev cd(2) by (simp add: extendable_def)
  with wf obtain ms r where live: "liveChain s ms r"
    by (auto simp: wellFormed_def)
  show ?thesis
  proof (cases "blockPrevHash block = headHash s")
    case True
    have "liveChain (s\<lparr>store := (store s)(blockHash \<mapsto> cd\<lparr>onMainChain := True\<rparr>),
        mainChain := cd\<lparr>onMainChain := True\<rparr>, headHash := blockHash\<rparr>) (blockHash # ms) r"
      using liveChain_extend [OF live new, of "cd\<lparr>onMainChain := True\<rparr>"] True cd(2) by simp
    then have "wellFormed (fireHeadChanged
        (s\<lparr>store := (store s)(blockHash \<mapsto> cd\<lparr>onMainChain := True\<rparr>),
           mainChain := cd\<lparr>onMainChain := True\<rparr>, headHash := blockHash\<rparr>))"
      unfolding wellFormed_events by (auto simp: wellFormed_def)
    then show ?thesis
      using True by (simp add: pushBlockInternal_def Let_def cd_def)
  next
    case False
    note notHead = this
    show ?thesis
    proof (cases "jsAdd (totalDifficulty prevData) (blockDifficulty block) > totalDifficulty (mainChain s)")
      case True
      from liveChain_paths [OF live e] obtain a fs ms1 ms2 where
        p: "ms = ms1 @ ms2" "chainPath (store s) (blockPrevHash (head cd)) fs a"
           "\<forall>x \<in> set fs. flagged (store s) False x" "flagged (store s) True a"
           "chainPath (store s) (headHash s) ms1 a" "chainPath (store s) a ms2 r"
        by blast
      define s1 where "s1 = s\<lparr>store := setMainChain
            ((blockHash, cd) # map (\<lambda>x. (x, the (store s x))) fs) (setFlag False ms1 (store s)),
          mainChain := cd\<lparr>onMainChain := True\<rparr>, headHash := blockHash\<rparr>"
      have hd: "store s (headHash s) = Some (mainChain s)"
        using live by (simp add: liveChain_def)
      have rb: "rebranch blockHash cd s = Some (Returned () s1)"
        unfolding s1_def by (rule rebranch_paths [OF cd(1) hd p(2,3,4,5)])
      have "liveChain s1 (blockHash # fs @ ms2) r"
        unfolding s1_def
        by (rule liveChain_rebranch [OF live [unfolded p(1)] new cd(1) p(2,3,5,6)])
      then have "wellFormed (fireHeadChanged s1)"
        unfolding wellFormed_events by (auto simp: wellFormed_def)
      then show ?thesis
        using notHead True rb by (simp add: pushBlockInternal_def Let_def cd_def)
    next
      case False
      have "liveChain (s\<lparr>store := (store s)(blockHash \<mapsto> cd)\<rparr>) ms r"
        by (rule liveChain_fork [OF live new e cd(1)])
      then have "wellFormed (s\<lparr>store := (store s)(blockHash \<mapsto> cd)\<rparr>)"
        by (auto simp: wellFormed_def)
      then show ?thesis
        using notHead False by (simp add: pushBlockInternal_def Let_def cd_def)
    qed
  qed
qed

lemma wellFormed_pushBlock:
  assumes "wellFormed s"
  shows "\<exists>c s'. pushBlock ext block s = Some (Returned c s') \<and> wellFormed s'"
proof (cases "store s (hashBlock ext block)")
  case (Some d)
  with assms show ?thesis
    by (simp add: pushBlock_def getBlock_def)
next
  case None
  note new = this
  show ?thesis
  proof (cases "store s (blockPrevHash block)")
    case None
    with new assms show ?thesis
      by (simp add: pushBlock_def getBlock_def)
  next
    case (Some prevData)
    show ?thesis
    proof (cases "totalDifficulty prevData \<le> 0")
      case True
      with new Some assms show ?thesis
        by (simp add: pushBlock_def getBlock_def)
    next
      case False
      then have "0 < totalDifficulty prevData" by simp
      from wellFormed_pushBlockInternal [OF assms new Some this, of ext]
      show ?thesis
        using new Some False by (simp add: pushBlock_def getBlock_def)
    qed
  qed
qed

lemma wellFormed_pushSuffix:
  "wellFormed s \<Longrightarrow> \<exists>out. pushSuffix ext blocks s = Some out \<and> wellFormed (stateAfter out)"
proof (induction blocks arbitrary: s)
  case Nil
  then show ?case by simp
next
  case (Cons block blocks)
  from wellFormed_pushBlock [OF Cons.prems, of ext block] obtain c s' where
    p: "pushBlock ext block s = Some (Returned c s')" "wellFormed s'"
    by blast
  show ?case
  proof (cases "c \<ge> 0")
    case True
    with p Cons.IH [OF p(2)] show ?thesis by simp
  next
    case False
    with p show ?thesis by simp
  qed
qed

lemma leaves_fold:
  "fold (\<lambda>block st. st(hashBlock ext block \<mapsto> leafData block)) bs st h = st h
   \<or> (\<exists>b. fold (\<lambda>block st. st(hashBlock ext block \<mapsto> leafData block)) bs st h
           = Some (leafData b))"
proof (induction bs arbitrary: st)
  case Nil
  then show ?case by simp
next
  case (Cons b bs)
  from Cons.IH [of "st(hashBlock ext b \<mapsto> leafData b)"] show ?case
    by (cases "h = hashBlock ext b") auto
qed

lemma wellFormed_resetStore: "wellFormed (resetStore ext prf s)"
proof -
  define hh where "hh = hashBlock ext (chainHead ext (prefix prf))"
  define cd where "cd = \<lparr>head = chainHead ext (prefix prf),
      totalDifficulty = blockDifficulty (chainHead ext (prefix prf)),
      totalWork = realDifficulty ext hh, onMainChain = True\<rparr>"
  define st' where "st' = fold (\<lambda>block st. st(hashBlock ext block \<mapsto> leafData block))
      (take (length (prefix prf) - 1) (prefix prf)) (Map.empty(hh \<mapsto> cd))"
  have rs: "resetStore ext prf s = s\<lparr>store := st', headHash := hh, mainChain := cd\<rparr>"
    by (simp add: resetStore_def Let_def st'_def cd_def hh_def)
  have entry: "st' h = (Map.empty(hh \<mapsto> cd)) h \<or> (\<exists>b. st' h = Some (leafData b))" for h
    unfolding st'_def by (rule leaves_fold)
  show ?thesis
  proof (cases "st' hh = Some cd")
    case True
    have "liveChain (s\<lparr>store := st', headHash := hh, mainChain := cd\<rparr>) [] hh"
      unfolding liveChain_def
    proof (intro conjI allI impI)
      show "store (s\<lparr>store := st', headHash := hh, mainChain := cd\<rparr>)
          (headHash (s\<lparr>store := st', headHash := hh, mainChain := cd\<rparr>))
          = Some (mainChain (s\<lparr>store := st', headHash := hh, mainChain := cd\<rparr>))"
        using True by simp
      show "chainPath (store (s\<lparr>store := st', headHash := hh, mainChain := cd\<rparr>))
          (headHash (s\<lparr>store := st', headHash := hh, mainChain := cd\<rparr>)) [] hh"
        by simp
      show "\<forall>x \<in> set ([] @ [hh]).
          flagged (store (s\<lparr>store := st', headHash := hh, mainChain := cd\<rparr>)) True x"
        using True by (simp add: flagged_def cd_def)
    next
      fix h
      assume "extendable (store (s\<lparr>store := st', headHash := hh, mainChain := cd\<rparr>)) h
          \<and> flagged (store (s\<lparr>store := st', headHash := hh, mainChain := cd\<rparr>)) True h"
      then show "h \<in> set ([] @ [hh])"
        using entry [of h] by (auto simp: extendable_def leafData_def split: if_splits)
    next
      fix h
      assume "flagged (store (s\<lparr>store := st', headHash := hh, mainChain := cd\<rparr>)) False h"
      then have False
        using entry [of h] by (auto simp: flagged_def leafData_def cd_def split: if_splits)
      then show "\<exists>fs a. chainPath (store (s\<lparr>store := st', headHash := hh, mainChain := cd\<rparr>)) h fs a
          \<and> (\<forall>x \<in> set fs. flagged (store (s\<lparr>store := st', headHash := hh, mainChain := cd\<rparr>)) False x)
          \<and> a \<in> set ([] @ [hh])"
        by simp
    qed
    then show ?thesis
      by (auto simp: rs wellFormed_def)
  next
    case False
    have "\<not> extendable st' h" for h
      using entry [of h] entry [of hh] False
      by (auto simp: extendable_def leafData_def split: if_splits)
    then show ?thesis
      by (simp add: rs wellFormed_def)
  qed
qed

lemma wellFormed_acceptProof:
  "wellFormed s
   \<Longrightarrow> \<exists>out. acceptProof ext prf blocks s = Some out \<and> wellFormed (stateAfter out)"
  by (auto simp: acceptProof_def Let_def split: option.splits
      intro: wellFormed_pushSuffix wellFormed_resetStore)

lemma wellFormed_pushProof:
  assumes "wellFormed s"
  shows "\<exists>out. pushProof ext prf s = Some out \<and> wellFormed (stateAfter out)"
proof (cases "proofVerified ext prf \<and> isBetterProof ext prf (chainProof s) (policyM ext)")
  case False
  with assms show ?thesis
    by (auto simp: pushProof_def proofVerified_def split: option.splits)
next
  case True
  then obtain suffixBlocks where
    v: "verifySuffix ext (chainHead ext (prefix prf)) (suffix prf) [] = Some suffixBlocks"
    by (auto simp: proofVerified_def)
  from wellFormed_acceptProof [OF assms, of ext "prf" suffixBlocks] obtain out where
    a: "acceptProof ext prf suffixBlocks s = Some out" "wellFormed (stateAfter out)"
    by blast
  with True v show ?thesis
    by (cases out) (auto simp: pushProof_def proofVerified_def)
qed

lemma pushHeader_shape:
  "(\<exists>c. pushHeader ext hdr s = Some (Returned c s))
   \<or> (\<exists>prevData. store s (hashHeader ext hdr) = None
         \<and> store s (prevHash hdr) = Some prevData \<and> 0 < totalDifficulty prevData
         \<and> pushHeader ext hdr s =
             pushBlockInternal ext
               \<lparr>header = hdr, interlink = getNextInterlink ext (head prevData) (target hdr)\<rparr>
               (hashHeader ext hdr) prevData s)"
  by (auto simp: pushHeader_def getBlock_def Let_def split: option.splits)

lemma wellFormed_pushHeader:
  assumes "wellFormed s"
  shows "\<exists>c s'. pushHeader ext hdr s = Some (Returned c s') \<and> wellFormed s'"
proof -
  from pushHeader_shape [of ext hdr s] consider
    (same) c where "pushHeader ext hdr s = Some (Returned c s)"
  | (append) prevData where "store s (hashHeader ext hdr) = None"
      "store s (prevHash hdr) = Some prevData" "0 < totalDifficulty prevData"
      "pushHeader ext hdr s =
         pushBlockInternal ext
           \<lparr>header = hdr, interlink = getNextInterlink ext (head prevData) (target hdr)\<rparr>
           (hashHeader ext hdr) prevData s"
    by blast
  then show ?thesis
  proof cases
    case same
    with assms show ?thesis by blast
  next
    case append
    let ?blk = "\<lparr>header = hdr, interlink = getNextInterlink ext (head prevData) (target hdr)\<rparr>"
    have "store s (blockPrevHash ?blk) = Some prevData"
      using append(2) by (simp add: blockPrevHash_def)
    from wellFormed_pushBlockInternal [OF assms append(1) this append(3), of ext] append(4)
    show ?thesis by simp
  qed
qed

lemma wellFormed_callOp:
  "wellFormed s \<Longrightarrow> \<exists>s'. callOp ext c s = Some s' \<and> wellFormed s'"
proof (cases c)
  case (PushProof p)
  assume "wellFormed s"
  from wellFormed_pushProof [OF this, of ext p] PushProof show ?thesis
    by (auto simp: callOp_def)
next
  case (PushHeader hdr)
  assume "wellFormed s"
  from wellFormed_pushHeader [OF this, of ext hdr] PushHeader show ?thesis
    by (auto simp: callOp_def)
qed

lemma wellFormed_runCalls:
  "wellFormed s \<Longrightarrow> \<exists>s'. runCalls ext calls s = Some s' \<and> wellFormed s'"
proof (induction calls arbitrary: s)
  case Nil
  then show ?case by simp
next
  case (Cons c calls)
  from wellFormed_callOp [OF Cons.prems, of ext c] obtain s1 where
    "callOp ext c s = Some s1" "wellFormed s1"
    by blast
  with Cons.IH [OF this(2)] show ?case by simp
qed

lemma wellFormed_reachable:
  "runCalls ext calls (newLightChain ext) = Some s \<Longrightarrow> wellFormed s"
  using wellFormed_runCalls [OF wellFormed_new, of ext calls ext] by auto

text \<open>
  The rebranch along given paths: \<open>fs\<close> leads from the predecessor of the new block,
  off the main chain, to the common ancestor \<open>a\<close>, and \<open>ms\<close> leads from the head down
  to \<open>a\<close>.
\<close>

lemma rebranch_along_paths:
  assumes "blockPrevHash block \<noteq> headHash s"
      and "jsAdd (totalDifficulty prevData) (blockDifficulty block) > totalDifficulty (mainChain s)"
      and "store s blockHash = None"
      and "store s (headHash s) = Some (mainChain s)"
      and "chainPath (store s) (blockPrevHash block) fs a"
      and "\<forall>x \<in> set fs. flagged (store s) False x"
      and "flagged (store s) True a"
      and "chainPath (store s) (headHash s) ms a"
      and "\<forall>x \<in> set ms. flagged (store s) True x"
  shows "\<exists>s'. pushBlockInternal ext block blockHash prevData s = Some (Returned OK_REBRANCHED s')
           \<and> headHash s' = blockHash
           \<and> head (mainChain s') = block
           \<and> (\<forall>x \<in> set ms. flagged (store s') False x)
           \<and> (\<forall>x \<in> set (blockHash # fs). flagged (store s') True x)
           \<and> flagged (store s') True a
           \<and> events s' = events s @ [block]"
proof -
  define chainData where "chainData = newChainData block
      (jsAdd (totalDifficulty prevData) (blockDifficulty block))
      (jsAdd (totalWork prevData) (realDifficulty ext blockHash))"
  define fork where "fork = (blockHash, chainData) # map (\<lambda>x. (x, the (store s x))) fs"
  define s' where "s' = s\<lparr>store := setMainChain fork (setFlag False ms (store s)),
      mainChain := chainData\<lparr>onMainChain := True\<rparr>, headHash := blockHash\<rparr>"
  have cd: "\<not> onMainChain chainData" "head chainData = block"
    by (simp_all add: chainData_def newChainData_def)
  have rb: "rebranch blockHash chainData s = Some (Returned () s')"
    unfolding s'_def fork_def
    using rebranch_paths [OF cd(1) assms(4) _ assms(6,7,8)] assms(5) cd(2) by simp
  have res: "pushBlockInternal ext block blockHash prevData s
      = Some (Returned OK_REBRANCHED (fireHeadChanged s'))"
    using assms(1,2) rb by (simp add: pushBlockInternal_def Let_def chainData_def)
  have mo: "map_of fork x = (if x = blockHash then Some chainData
      else if x \<in> set fs then Some (the (store s x)) else None)" for x
    by (simp add: fork_def map_of_stored)
  have st: "store (fireHeadChanged s') x =
      (if x = blockHash then Some (chainData\<lparr>onMainChain := True\<rparr>)
       else if x \<in> set fs then Some ((the (store s x))\<lparr>onMainChain := True\<rparr>)
       else if x \<in> set ms then map_option (\<lambda>d. d\<lparr>onMainChain := False\<rparr>) (store s x)
       else store s x)" for x
    by (simp add: fireHeadChanged_def s'_def setMainChain_apply mo setFlag_def)
  have disj: "x \<in> set ms \<Longrightarrow> x \<noteq> blockHash \<and> x \<notin> set fs" for x
    using assms(3,6,9) by (auto simp: flagged_def split: option.splits)
  have c1: "\<forall>x \<in> set ms. flagged (store (fireHeadChanged s')) False x"
    using disj assms(9) by (auto simp: st flagged_def split: option.splits)
  have c2: "\<forall>x \<in> set (blockHash # fs). flagged (store (fireHeadChanged s')) True x"
    by (auto simp: st flagged_def)
  have "a \<notin> set ms" "a \<noteq> blockHash"
    using assms(3,7) chainPath_target_notin [OF assms(8)]
    by (auto simp: flagged_def split: option.splits)
  then have c3: "flagged (store (fireHeadChanged s')) True a"
    using assms(7) by (auto simp: st flagged_def split: option.splits)
  show ?thesis
    using res c1 c2 c3 cd
    by (intro exI [of _ "fireHeadChanged s'"]) (simp add: fireHeadChanged_def s'_def)
qed

text \<open>
  Claim C4. On an engine reached from a new one by any sequence of calls, let a block
  that is not yet stored and whose predecessor is stored with a positive total
  difficulty (what \<open>pushHeader\<close> and \<open>pushBlock\<close> check before they append) not
  extend the head and have a total difficulty (the JavaScript sum of the total of the
  predecessor and the difficulty of the block) strictly greater than that of the main
  chain. Then the append returns \<open>OK_REBRANCHED\<close>, the head hash is the hash of the new
  block afterwards and \<open>head-changed\<close> has been fired once, with the new block. The
  store holds a common ancestor \<open>a\<close> with the fork path \<open>fs\<close> and the main-chain blocks
  \<open>ms\<close> above it; every block of \<open>ms\<close> has \<open>onMainChain = false\<close> afterwards, every
  block of \<open>fs\<close> and the new block have \<open>onMainChain = true\<close>, and so has \<open>a\<close>.
\<close>

theorem pushBlockInternal_rebranch:
  assumes reach: "runCalls ext calls (newLightChain ext) = Some s"
      and new: "store s blockHash = None"
      and prev: "store s (blockPrevHash block) = Some prevData" "0 < totalDifficulty prevData"
      and notHead: "blockPrevHash block \<noteq> headHash s"
      and heavier: "jsAdd (totalDifficulty prevData) (blockDifficulty block)
                      > totalDifficulty (mainChain s)"
  shows "\<exists>s'. pushBlockInternal ext block blockHash prevData s = Some (Returned OK_REBRANCHED s')
           \<and> headHash s' = blockHash
           \<and> head (mainChain s') = block
           \<and> events s' = events s @ [block]
           \<and> (\<exists>a fs ms. rebranchPaths s block a fs ms)
           \<and> (\<forall>a fs ms. rebranchPaths s block a fs ms \<longrightarrow>
                  (\<forall>x \<in> set ms. flagged (store s') False x)
                  \<and> (\<forall>x \<in> set (blockHash # fs). flagged (store s') True x)
                  \<and> flagged (store s') True a)"
proof -
  have wf: "wellFormed s"
    by (rule wellFormed_reachable [OF reach])
  have e: "extendable (store s) (blockPrevHash block)"
    using prev by (simp add: extendable_def)
  with wf obtain ms r where live: "liveChain s ms r"
    by (auto simp: wellFormed_def)
  then have hd: "store s (headHash s) = Some (mainChain s)"
    by (simp add: liveChain_def)
  from liveChain_paths [OF live e] obtain a fs ms1 where
    p: "rebranchPaths s block a fs ms1"
    unfolding rebranchPaths_def by blast
  have run: "\<exists>s'. pushBlockInternal ext block blockHash prevData s
        = Some (Returned OK_REBRANCHED s')
      \<and> headHash s' = blockHash \<and> head (mainChain s') = block
      \<and> (\<forall>x \<in> set ms'. flagged (store s') False x)
      \<and> (\<forall>x \<in> set (blockHash # fs'). flagged (store s') True x)
      \<and> flagged (store s') True a'
      \<and> events s' = events s @ [block]"
    if "rebranchPaths s block a' fs' ms'" for a' fs' ms'
    using that rebranch_along_paths [OF notHead heavier new hd, of fs' a' ms' ext]
    unfolding rebranchPaths_def by blast
  from run [OF p] obtain s' where
    s': "pushBlockInternal ext block blockHash prevData s = Some (Returned OK_REBRANCHED s')"
      "headHash s' = blockHash" "head (mainChain s') = block" "events s' = events s @ [block]"
    by blast
  have all: "(\<forall>x \<in> set ms'. flagged (store s') False x)
      \<and> (\<forall>x \<in> set (blockHash # fs'). flagged (store s') True x)
      \<and> flagged (store s') True a'"
    if "rebranchPaths s block a' fs' ms'" for a' fs' ms'
    using run [OF that] s'(1) by auto
  show ?thesis
    using s' p all by blast
qed

text \<open>
  The fork-then-reorg scenario. Pushing \<open>B\<close>, \<open>C\<close> and the weaker \<open>B'\<close> onto a new
  engine gives the forked chain; the block \<open>C'\<close> (hash 4) on top of \<open>B'\<close> has total
  difficulty \<open>2 + 5 > 5\<close>, so the engine rebranches: \<open>B\<close> and \<open>C\<close> leave the main
  chain, \<open>B'\<close> and \<open>C'\<close> join it, and the common ancestor \<open>A\<close> stays.
\<close>

lemma demo_forked_reached:
  "runCalls demoExt
     [PushHeader (demoHeader 1 0 2 2), PushHeader (demoHeader 2 1 3 2),
      PushHeader (demoHeader 3 0 2 1)]
     (newLightChain demoExt) = Some demoForked"
  by (simp add: callOp_def pushHeader_def pushBlockInternal_def demo_defs code_defs)

theorem pushBlockInternal_rebranch_witness:
  "runCalls demoExt
     [PushHeader (demoHeader 1 0 2 2), PushHeader (demoHeader 2 1 3 2),
      PushHeader (demoHeader 3 0 2 1)]
     (newLightChain demoExt) = Some demoForked
   \<and> store demoForked 4 = None
   \<and> store demoForked (blockPrevHash (demoBlock 4 3 3 5))
       = Some (demoData (demoBlock 3 0 2 1) 2 2 False)
   \<and> 0 < totalDifficulty (demoData (demoBlock 3 0 2 1) 2 2 False)
   \<and> blockPrevHash (demoBlock 4 3 3 5) \<noteq> headHash demoForked
   \<and> jsAdd (totalDifficulty (demoData (demoBlock 3 0 2 1) 2 2 False))
         (blockDifficulty (demoBlock 4 3 3 5))
       > totalDifficulty (mainChain demoForked)
   \<and> rebranchPaths demoForked (demoBlock 4 3 3 5) 0 [3] [2, 1]
   \<and> (\<exists>s'. pushBlockInternal demoExt (demoBlock 4 3 3 5) 4
              (demoData (demoBlock 3 0 2 1) 2 2 False) demoForked
            = Some (Returned OK_REBRANCHED s')
          \<and> headHash s' = 4
          \<and> flagged (store s') False 2 \<and> flagged (store s') False 1
          \<and> flagged (store s') True 4 \<and> flagged (store s') True 3
          \<and> flagged (store s') True 0
          \<and> events s' = events demoForked @ [demoBlock 4 3 3 5])"
proof -
  note h0 = demo_forked_reached
  have h1: "store demoForked 4 = None"
    by (simp add: demo_defs)
  have h2: "store demoForked (blockPrevHash (demoBlock 4 3 3 5))
      = Some (demoData (demoBlock 3 0 2 1) 2 2 False)"
    by (simp add: demo_defs)
  have h3: "0 < totalDifficulty (demoData (demoBlock 3 0 2 1) 2 2 False)"
    by (simp add: demo_defs)
  have h4: "blockPrevHash (demoBlock 4 3 3 5) \<noteq> headHash demoForked"
    by (simp add: demo_defs)
  have h5: "jsAdd (totalDifficulty (demoData (demoBlock 3 0 2 1) 2 2 False))
      (blockDifficulty (demoBlock 4 3 3 5)) > totalDifficulty (mainChain demoForked)"
    by (simp add: demo_defs)
  have h6: "rebranchPaths demoForked (demoBlock 4 3 3 5) 0 [3] [2, 1]"
    by (simp add: rebranchPaths_def flagged_def demo_defs)
  from pushBlockInternal_rebranch [OF h0 h1 h2 h3 h4 h5]
  obtain s' where r:
    "pushBlockInternal demoExt (demoBlock 4 3 3 5) 4 (demoData (demoBlock 3 0 2 1) 2 2 False)
       demoForked = Some (Returned OK_REBRANCHED s')"
    "headHash s' = 4"
    "events s' = events demoForked @ [demoBlock 4 3 3 5]"
    "\<forall>a fs ms. rebranchPaths demoForked (demoBlock 4 3 3 5) a fs ms \<longrightarrow>
        (\<forall>x \<in> set ms. flagged (store s') False x)
        \<and> (\<forall>x \<in> set (4 # fs). flagged (store s') True x)
        \<and> flagged (store s') True a"
    by blast
  from r(4) h6 have f:
    "\<forall>x \<in> set [2, 1]. flagged (store s') False x"
    "\<forall>x \<in> set [4, 3]. flagged (store s') True x"
    "flagged (store s') True 0"
    by blast+
  have c: "\<exists>s'. pushBlockInternal demoExt (demoBlock 4 3 3 5) 4
              (demoData (demoBlock 3 0 2 1) 2 2 False) demoForked
            = Some (Returned OK_REBRANCHED s')
          \<and> headHash s' = 4
          \<and> flagged (store s') False 2 \<and> flagged (store s') False 1
          \<and> flagged (store s') True 4 \<and> flagged (store s') True 3
          \<and> flagged (store s') True 0
          \<and> events s' = events demoForked @ [demoBlock 4 3 3 5]"
    using r(1,2,3) f by (intro exI [of _ s']) simp
  show ?thesis
    using h0 h1 h2 h3 h4 h5 h6 c by blast
qed


text \<open>
  The totals are JavaScript numbers. After a header of difficulty \<open>2 ^ 53 - 1\<close> has
  been pushed on the genesis block, the head has the total difficulty \<open>2 ^ 53\<close>. A
  sibling of difficulty \<open>2 ^ 53\<close> has the exact total \<open>1 + 2 ^ 53\<close>, which rounds to
  \<open>2 ^ 53\<close>: the block is not heavier than the main chain and is stored as a fork.
\<close>

lemma rounded_total_forks:
  "(\<exists>s. pushHeader demoExt (demoHeader 1 0 2 (2 ^ 53 - 1)) (newLightChain demoExt)
          = Some (Returned OK_EXTENDED s)
        \<and> totalDifficulty (mainChain s) = 2 ^ 53
        \<and> store s 0 = Some (demoData demoGenesis 1 1 True)
        \<and> (\<exists>s'. pushBlockInternal demoExt (demoBlock 3 0 2 (2 ^ 53)) 3
                   (demoData demoGenesis 1 1 True) s
                 = Some (Returned OK_FORKED s')
               \<and> headHash s' = headHash s \<and> headHash s' = 1))"
proof -
  have a: "jsAdd 1 9007199254740991 = 9007199254740992"
    "jsAdd 1 9007199254740992 = 9007199254740992" "jsAdd 1 1 = 2"
    by code_simp+
  show ?thesis
    by (simp add: pushHeader_def getBlock_def pushBlockInternal_def demoExt_def demoHeader_def
        demoBlock_def demoGenesis_def demoData_def newLightChain_def genesisProof_def
        blockPrevHash_def blockDifficulty_def blockHeight_def hashBlock_def newChainData_def
        fireHeadChanged_def Let_def code_defs a)
qed
section \<open>Adopting an anchored proof\<close>








section \<open>Pushing the same header twice\<close>

lemma findCommonAncestor_extends:
  assumes "findCommonAncestor st d h fork = Some y"
  shows "\<forall>a fork'. y = Inr (a, fork') \<longrightarrow> (\<exists>rest. fork' = fork @ rest)"
  using assms
proof (induction rule: findCommonAncestor.raw_induct [rotated 1, consumes 1])
  case (1 findCommonAncestor st curData curHash fork y)
  show ?case
  proof (cases "onMainChain curData")
    case True
    with "1.hyps" show ?thesis by auto
  next
    case False
    show ?thesis
    proof (cases "st (blockPrevHash (head curData))")
      case None
      with False "1.hyps" show ?thesis by (auto simp: Let_def)
    next
      case (Some curData')
      with False "1.hyps" have
        "findCommonAncestor st curData' (blockPrevHash (head curData)) (fork @ [(curHash, curData)])
           = Some y"
        by (simp add: Let_def)
      from "1.IH" [OF this] show ?thesis by auto
    qed
  qed
qed

lemma rebranch_returned:
  assumes "\<not> onMainChain chainData"
      and "rebranch blockHash chainData s = Some (Returned u s')"
  shows "store s' blockHash = Some (chainData\<lparr>onMainChain := True\<rparr>)
       \<and> events s' = events s
       \<and> mainChain s' = chainData\<lparr>onMainChain := True\<rparr>
       \<and> headHash s' = blockHash"
proof -
  from assms(2) obtain a fork st where
    f: "findCommonAncestor (store s) chainData blockHash [] = Some (Inr (a, fork))"
    and s': "s' = s\<lparr>store := setMainChain fork st,
                     mainChain := chainData\<lparr>onMainChain := True\<rparr>, headHash := blockHash\<rparr>"
    by (auto simp: rebranch_def split: option.splits sum.splits prod.splits)
  from f assms(1) obtain d where
    "findCommonAncestor (store s) d (blockPrevHash (head chainData)) [(blockHash, chainData)]
       = Some (Inr (a, fork))"
    by (subst (asm) findCommonAncestor.simps) (auto simp: Let_def split: option.splits)
  from findCommonAncestor_extends [OF this] obtain rest where
    "fork = (blockHash, chainData) # rest"
    by auto
  then show ?thesis
    by (simp add: s' setMainChain_Cons)
qed

lemma pushBlockInternal_returned:
  assumes "pushBlockInternal ext block blockHash prevData s = Some (Returned c s')"
  shows "store s' blockHash \<noteq> None
       \<and> events s' = events s @ (if c = OK_FORKED then [] else [head (mainChain s')])
       \<and> (c = OK_EXTENDED \<or> c = OK_REBRANCHED \<or> c = OK_FORKED)"
proof (cases "blockPrevHash block = headHash s")
  case True
  with assms show ?thesis
    by (auto simp: pushBlockInternal_def Let_def fireHeadChanged_def code_defs)
next
  case False
  note notHead = this
  define chainData where "chainData = newChainData block
      (jsAdd (totalDifficulty prevData) (blockDifficulty block))
      (jsAdd (totalWork prevData) (realDifficulty ext blockHash))"
  have nf: "\<not> onMainChain chainData"
    by (simp add: chainData_def newChainData_def)
  show ?thesis
  proof (cases "jsAdd (totalDifficulty prevData) (blockDifficulty block) > totalDifficulty (mainChain s)")
    case True
    with notHead assms obtain u s1 where
      rb: "rebranch blockHash chainData s = Some (Returned u s1)"
      and c: "c = OK_REBRANCHED" and s': "s' = fireHeadChanged s1"
      by (auto simp: pushBlockInternal_def Let_def chainData_def
          split: option.splits outcome.splits)
    from rebranch_returned [OF nf rb] show ?thesis
      by (simp add: c s' fireHeadChanged_def code_defs)
  next
    case False
    with notHead assms show ?thesis
      by (auto simp: pushBlockInternal_def Let_def code_defs)
  qed
qed

lemma validHeader_pushHeader:
  assumes "validHeader ext hdr s"
  shows "\<exists>prevData. store s (hashHeader ext hdr) = None
           \<and> store s (prevHash hdr) = Some prevData \<and> 0 < totalDifficulty prevData
           \<and> pushHeader ext hdr s =
               pushBlockInternal ext
                 \<lparr>header = hdr, interlink = getNextInterlink ext (head prevData) (target hdr)\<rparr>
                 (hashHeader ext hdr) prevData s"
  using assms
  by (auto simp: validHeader_def pushHeader_def getBlock_def Let_def split: option.splits)

text \<open>
  Claim C7, as amended. When \<open>pushHeader\<close> returns \<open>OK_EXTENDED\<close>, \<open>OK_REBRANCHED\<close>
  or \<open>OK_FORKED\<close> for a header, pushing the same header again returns \<open>OK_KNOWN\<close> and
  leaves the state exactly as the first call left it. The second call fires no event;
  the first fires one, with the new head, when it returns \<open>OK_EXTENDED\<close> or
  \<open>OK_REBRANCHED\<close>, and none when it returns \<open>OK_FORKED\<close>. On an engine reached from a
  new one by any sequence of calls, the first call does return one of the three codes for
  every valid header.
\<close>

theorem pushHeader_twice:
  "(pushHeader ext hdr s = Some (Returned c s1)
      \<and> (c = OK_EXTENDED \<or> c = OK_REBRANCHED \<or> c = OK_FORKED)
    \<longrightarrow> pushHeader ext hdr s1 = Some (Returned OK_KNOWN s1)
        \<and> events s1 = events s @ (if c = OK_FORKED then [] else [head (mainChain s1)]))
   \<and> (runCalls ext calls (newLightChain ext) = Some s \<and> validHeader ext hdr s
    \<longrightarrow> (\<exists>c' s1'. pushHeader ext hdr s = Some (Returned c' s1')
                  \<and> (c' = OK_EXTENDED \<or> c' = OK_REBRANCHED \<or> c' = OK_FORKED)))"
proof (rule conjI; rule impI)
  assume a: "pushHeader ext hdr s = Some (Returned c s1)
      \<and> (c = OK_EXTENDED \<or> c = OK_REBRANCHED \<or> c = OK_FORKED)"
  then have ne: "c \<noteq> OK_KNOWN" "c \<noteq> ERR_INVALID" "c \<noteq> ERR_ORPHAN"
    by (auto simp: code_defs)
  with a obtain blk prevData where
    "pushBlockInternal ext blk (hashHeader ext hdr) prevData s = Some (Returned c s1)"
    by (auto simp: pushHeader_def Let_def split: if_splits option.splits)
  from pushBlockInternal_returned [OF this]
  have "store s1 (hashHeader ext hdr) \<noteq> None"
    and ev: "events s1 = events s @ (if c = OK_FORKED then [] else [head (mainChain s1)])"
    by simp_all
  then have "pushHeader ext hdr s1 = Some (Returned OK_KNOWN s1)"
    by (simp add: pushHeader_def getBlock_def)
  with ev show "pushHeader ext hdr s1 = Some (Returned OK_KNOWN s1)
      \<and> events s1 = events s @ (if c = OK_FORKED then [] else [head (mainChain s1)])"
    by simp
next
  assume a: "runCalls ext calls (newLightChain ext) = Some s \<and> validHeader ext hdr s"
  then have wf: "wellFormed s"
    using wellFormed_reachable by blast
  from a validHeader_pushHeader [of ext hdr s] obtain prevData where
    v: "store s (hashHeader ext hdr) = None" "store s (prevHash hdr) = Some prevData"
      "0 < totalDifficulty prevData"
      "pushHeader ext hdr s =
         pushBlockInternal ext
           \<lparr>header = hdr, interlink = getNextInterlink ext (head prevData) (target hdr)\<rparr>
           (hashHeader ext hdr) prevData s"
    by blast
  let ?blk = "\<lparr>header = hdr, interlink = getNextInterlink ext (head prevData) (target hdr)\<rparr>"
  have "store s (blockPrevHash ?blk) = Some prevData"
    using v(2) by (simp add: blockPrevHash_def)
  from wellFormed_pushBlockInternal [OF wf v(1) this v(3), of ext] obtain c' s1' where
    r: "pushBlockInternal ext ?blk (hashHeader ext hdr) prevData s = Some (Returned c' s1')"
    by blast
  from pushBlockInternal_codes [OF r] r v(4)
  show "\<exists>c' s1'. pushHeader ext hdr s = Some (Returned c' s1')
      \<and> (c' = OK_EXTENDED \<or> c' = OK_REBRANCHED \<or> c' = OK_FORKED)"
    by auto
qed

theorem pushHeader_twice_witness:
  "runCalls demoExt [] (newLightChain demoExt) = Some (newLightChain demoExt)
   \<and> validHeader demoExt (demoHeader 1 0 2 2) (newLightChain demoExt)
   \<and> (\<exists>s1. pushHeader demoExt (demoHeader 1 0 2 2) (newLightChain demoExt)
             = Some (Returned OK_EXTENDED s1)
          \<and> pushHeader demoExt (demoHeader 1 0 2 2) s1 = Some (Returned OK_KNOWN s1)
          \<and> length (events s1) = 1)"
proof -
  have r: "runCalls demoExt [] (newLightChain demoExt) = Some (newLightChain demoExt)"
    by simp
  have v: "validHeader demoExt (demoHeader 1 0 2 2) (newLightChain demoExt)"
    by (simp add: validHeader_def demo_defs)
  from pushHeader_twice [of demoExt "demoHeader 1 0 2 2" "newLightChain demoExt" _ _ "[]"] r v
  obtain c s1 where f: "pushHeader demoExt (demoHeader 1 0 2 2) (newLightChain demoExt)
      = Some (Returned c s1)" "c = OK_EXTENDED \<or> c = OK_REBRANCHED \<or> c = OK_FORKED"
    by blast
  have "\<exists>s. pushHeader demoExt (demoHeader 1 0 2 2) (newLightChain demoExt)
      = Some (Returned OK_EXTENDED s)"
    by (simp add: pushHeader_def pushBlockInternal_def demo_defs code_defs)
  with f(1) have c: "c = OK_EXTENDED" by auto
  have e: "events (newLightChain demoExt) = []"
    by (simp add: demo_defs)
  have n: "OK_EXTENDED \<noteq> OK_FORKED"
    by (simp add: code_defs)
  have "pushHeader demoExt (demoHeader 1 0 2 2) s1 = Some (Returned OK_KNOWN s1)
      \<and> events s1 = events (newLightChain demoExt) @ [head (mainChain s1)]"
    using pushHeader_twice [of demoExt "demoHeader 1 0 2 2" "newLightChain demoExt" c s1] f c n
    by simp
  then have "pushHeader demoExt (demoHeader 1 0 2 2) (newLightChain demoExt)
             = Some (Returned OK_EXTENDED s1)
          \<and> pushHeader demoExt (demoHeader 1 0 2 2) s1 = Some (Returned OK_KNOWN s1)
          \<and> length (events s1) = 1"
    using f(1) c e by simp
  then show ?thesis
    using r v by blast
qed

text \<open>
  On the chain \<open>A - B - C\<close> the header of the weaker sibling \<open>B'\<close> is stored as a fork:
  the first call returns \<open>OK_FORKED\<close>, the second \<open>OK_KNOWN\<close>, and no \<open>head-changed\<close>
  event is fired by either.
\<close>

theorem pushHeader_twice_counterexample:
  "pushHeader demoExt (demoHeader 3 0 2 1) demoChain = Some (Returned OK_FORKED demoForked)
   \<and> pushHeader demoExt (demoHeader 3 0 2 1) demoForked = Some (Returned OK_KNOWN demoForked)
   \<and> events demoForked = events demoChain
   \<and> length (events demoForked) - length (events demoChain) \<noteq> 1"
  by (simp add: pushHeader_def pushBlockInternal_def demo_defs code_defs)

section \<open>The result of pushing a proof\<close>



text \<open>
  Anchoring is what the append of the suffix rests on. If the \<open>verify\<close> of a proof
  accepted a proof whose suffix header names the unknown predecessor 9 instead of the
  head of the prefix, the adoption would push an orphan and the assertion on the result
  of the push would fail.
\<close>

lemma unanchored_suffix_throws:
  "\<not> anchoredProof demoExt
       \<lparr>prefix = [demoGenesis],
        suffix = [\<lparr>prevHash = 9, interlinkHash = 0, height = 2, target = 1, nBits = 1,
                   difficulty = 2, nonce = 5\<rparr>]\<rparr>
       (newLightChain demoExt)
   \<and> pushProof demoExt
       \<lparr>prefix = [demoGenesis],
        suffix = [\<lparr>prevHash = 9, interlinkHash = 0, height = 2, target = 1, nBits = 1,
                   difficulty = 2, nonce = 5\<rparr>]\<rparr>
       (newLightChain demoExt)
     = Some (Thrown AssertionFailed (newLightChain demoExt))"
  by (simp add: anchoredProof_def adoptionBase_def pushProof_def isBetterProof_def
      getProofScore_def countUp_def acceptProof_def pushBlock_def demo_defs code_defs)


end
